theory Spec2Isabelle
  imports Main
begin

section \<open>JavaScript values and strings\<close>

text \<open>
  A JavaScript string is modelled as a \<^typ>\<open>string\<close> whose characters are the
  code units below 256 (Latin-1), so that U+00A0 is the character \<open>CHR 0xA0\<close>.
  The values that substitution data can hold are the primitives and plain objects
  (an association list of own properties, first binding wins). Numbers are the
  integers, printed in decimal. Inherited (prototype) properties are outside the
  model: a lookup sees own properties only.
\<close>

datatype jsval =
    Undefined
  | Null
  | Bool bool
  | Num int
  | Str string
  | Obj "(string \<times> jsval) list"

text \<open>Truthiness, as \<open>!data\<close> reads it.\<close>

fun falsy :: "jsval \<Rightarrow> bool" where
  "falsy Undefined = True"
| "falsy Null = True"
| "falsy (Bool b) = (\<not> b)"
| "falsy (Num n) = (n = 0)"
| "falsy (Str s) = (s = [])"
| "falsy (Obj kvs) = False"

text \<open>Decimal digits of a natural number, most significant first.\<close>

fun digits :: "nat \<Rightarrow> string" where
  "digits n = (if n < 10 then [char_of (48 + n)]
               else digits (n div 10) @ [char_of (48 + n mod 10)])"

declare digits.simps [simp del]

definition show_int :: "int \<Rightarrow> string" where
  "show_int i = (if i < 0 then CHR ''-'' # digits (nat (- i)) else digits (nat i))"

text \<open>\<open>Object.keys(v)\<close>: the own enumerable property names.\<close>

fun own_keys :: "jsval \<Rightarrow> string list" where
  "own_keys (Obj kvs) = remdups (map fst kvs)"
| "own_keys (Str s) = map (\<lambda>i. digits i) [0..<length s]"
| "own_keys v = []"

text \<open>\<open>String(v)\<close>.\<close>

fun to_string :: "jsval \<Rightarrow> string" where
  "to_string Undefined = ''undefined''"
| "to_string Null = ''null''"
| "to_string (Bool b) = (if b then ''true'' else ''false'')"
| "to_string (Num n) = show_int n"
| "to_string (Str s) = s"
| "to_string (Obj kvs) = ''[object Object]''"

text \<open>
  \<open>current?.[prop]\<close>: \<open>undefined\<close> on \<open>undefined\<close> and \<open>null\<close>; an own
  property of an object; the length or a code unit of a string.
\<close>

fun get_prop :: "jsval \<Rightarrow> string \<Rightarrow> jsval" where
  "get_prop (Obj kvs) p = (case map_of kvs p of None \<Rightarrow> Undefined | Some v \<Rightarrow> v)"
| "get_prop (Str s) p =
     (if p = ''length'' then Num (int (length s))
      else (case filter (\<lambda>i. digits i = p) [0..<length s] of
              [] \<Rightarrow> Undefined
            | i # _ \<Rightarrow> Str [s ! i]))"
| "get_prop v p = Undefined"

text \<open>\<open>path.split('.')\<close>: never empty, the empty string splits into one empty part.\<close>

fun split_on :: "char \<Rightarrow> string \<Rightarrow> string list" where
  "split_on d [] = [[]]"
| "split_on d (c # cs) =
     (if c = d then [] # split_on d cs
      else (case split_on d cs of
              [] \<Rightarrow> [[c]]
            | p # ps \<Rightarrow> (c # p) # ps))"

text \<open>\<open>String.prototype.trim\<close> on code units below 256.\<close>

definition is_space :: "char \<Rightarrow> bool" where
  "is_space c = (c \<in> set [CHR 0x09, CHR 0x0A, CHR 0x0B, CHR 0x0C, CHR 0x0D, CHR 0x20, CHR 0xA0])"

definition trim :: "string \<Rightarrow> string" where
  "trim s = rev (dropWhile is_space (rev (dropWhile is_space s)))"

section \<open>The template engine\<close>

text \<open>
  One attempt of the pattern \<open>\{\{([^}]+)\}\}\<close> right after an opening \<open>{{\<close>:
  the group takes the longest run of characters other than \<open>}\<close>, which must not be
  empty and must be followed by \<open>}}\<close>. Giving characters back cannot help, since
  the character after a shorter run is not \<open>}\<close>. The result is the group and the
  text after the match.
\<close>

definition match_key :: "string \<Rightarrow> (string \<times> string) option" where
  "match_key s =
     (let key = takeWhile (\<lambda>c. c \<noteq> CHR ''}'') s;
          rest = dropWhile (\<lambda>c. c \<noteq> CHR ''}'') s
      in if key \<noteq> [] \<and> take 2 rest = ''}}'' then Some (key, drop 2 rest) else None)"

text \<open>
  \<open>html.replace(/\{\{([^}]+)\}\}/g, f)\<close>: the text is scanned from the left; a match
  is replaced by \<open>f match key\<close> and the scan goes on after it (the replacement is
  not scanned again); a position with no match keeps its character.
\<close>

function replace_placeholders :: "(string \<Rightarrow> string \<Rightarrow> string) \<Rightarrow> string \<Rightarrow> string" where
  "replace_placeholders f [] = []"
| "replace_placeholders f [c] = [c]"
| "replace_placeholders f (c1 # c2 # cs) =
     (if c1 = CHR ''{'' \<and> c2 = CHR ''{'' then
        (case match_key cs of
           Some (key, rest) \<Rightarrow> f (''{{'' @ key @ ''}}'') key @ replace_placeholders f rest
         | None \<Rightarrow> c1 # replace_placeholders f (c2 # cs))
      else c1 # replace_placeholders f (c2 # cs))"
  by pat_completeness auto
termination
proof (relation "measure (\<lambda>(f, s). length s)")
  fix f :: "string \<Rightarrow> string \<Rightarrow> string" and c1 c2 :: char and cs key rest :: string
    and x2 :: "string \<times> string"
  assume "match_key cs = Some x2" and "(key, rest) = x2"
  then have "rest = drop 2 (dropWhile (\<lambda>c. c \<noteq> CHR ''}'') cs)"
    by (auto simp: match_key_def Let_def split: if_splits)
  moreover have "length (dropWhile (\<lambda>c. c \<noteq> CHR ''}'') cs) \<le> length cs"
    by (rule length_dropWhile_le)
  ultimately show "((f, rest), f, c1 # c2 # cs) \<in> measure (\<lambda>(f, s). length s)"
    by simp
qed auto

subsection \<open>The full engine (part_000)\<close>

text \<open>\<open>_getNestedValue\<close>: \<open>path.split('.').reduce((current, prop) => current?.[prop], obj)\<close>.\<close>

definition getNestedValue :: "jsval \<Rightarrow> string \<Rightarrow> jsval" where
  "getNestedValue obj path = foldl get_prop obj (split_on CHR ''.'' path)"

text \<open>
  \<open>_escapeHtml\<close> sets the text as the \<open>textContent\<close> of a fresh element and reads
  its \<open>innerHTML\<close>. The serialisation of a text node replaces \<open>&\<close>, U+00A0,
  \<open><\<close> and \<open>>\<close> by their entities and nothing else (quotes are replaced in
  attribute values only).
\<close>

definition escape_char :: "char \<Rightarrow> string" where
  "escape_char c =
     (if c = CHR ''&'' then ''&amp;''
      else if c = CHR 0xA0 then ''&nbsp;''
      else if c = CHR ''<'' then ''&lt;''
      else if c = CHR ''>'' then ''&gt;''
      else [c])"

definition escapeHtml :: "string \<Rightarrow> string" where
  "escapeHtml s = concat (map escape_char s)"

text \<open>The callback of the replacement, and \<open>_processTemplate\<close> itself.\<close>

definition substitute :: "jsval \<Rightarrow> string \<Rightarrow> string \<Rightarrow> string" where
  "substitute d m key =
     (let trimmedKey = trim key;
          v = getNestedValue d trimmedKey
      in if v \<noteq> Undefined then escapeHtml (to_string v) else m)"

definition processTemplate :: "string \<Rightarrow> jsval \<Rightarrow> string" where
  "processTemplate html d =
     (let d' = (if d = Undefined then Obj [] else d)
      in if falsy d' \<or> length (own_keys d') = 0 then html
         else replace_placeholders (substitute d') html)"

subsection \<open>The reduced engine (js/components/utils.js)\<close>

text \<open>
  The earlier engine carries its own \<open>_getNestedValue\<close>, \<open>_escapeHtml\<close> and
  \<open>_processTemplate\<close>; they are embedded from that file, apart from the full engine's.
\<close>

definition getNestedValue_utils :: "jsval \<Rightarrow> string \<Rightarrow> jsval" where
  "getNestedValue_utils obj path =
     foldl (\<lambda>current prop. get_prop current prop) obj (split_on CHR ''.'' path)"

definition escapeHtml_utils :: "string \<Rightarrow> string" where
  "escapeHtml_utils s = concat (map escape_char s)"

definition processTemplate_utils :: "string \<Rightarrow> jsval \<Rightarrow> string" where
  "processTemplate_utils html d =
     (let d' = (if d = Undefined then Obj [] else d)
      in if falsy d' \<or> length (own_keys d') = 0 then html
         else replace_placeholders
                (\<lambda>m key.
                   let trimmedKey = trim key;
                       v = getNestedValue_utils d' trimmedKey
                   in if v \<noteq> Undefined then escapeHtml_utils (to_string v) else m)
                html)"

section \<open>The host document\<close>

text \<open>
  The engine reads the host document through a few primitives: the parent and the
  element children of a node, the \<open>id\<close> of an element (empty when it has none),
  \<open>document.body\<close>, \<open>document.querySelector\<close> and \<open>document.getElementById\<close>.
  Nodes are named by numbers. \<open>querySelector\<close> throws a \<open>SyntaxError\<close> on a string
  that is not a selector, and returns the first match or \<open>null\<close> otherwise.
\<close>

type_synonym node = nat

datatype query_result = SyntaxError | Matched "node option"

record document =
  parentNode :: "node \<Rightarrow> node option"
  children :: "node \<Rightarrow> node list"
  elem_id :: "node \<Rightarrow> string"
  body :: node
  querySelector :: "string \<Rightarrow> query_result"
  getElementById :: "string \<Rightarrow> node option"

text \<open>
  The \<open>target\<close> argument of an injection: an \<open>Element\<close>, a string, or any other
  value.
\<close>

datatype target = Element node | Selector string | Other

datatype inject_error =
    TargetNotFound
  | SelectorSyntaxError
  | RetrievalError
  | TransitionError
  | ExternalScriptError
  | InitializerError

definition startsWith :: "string \<Rightarrow> string \<Rightarrow> bool" where
  "startsWith s p = (take (length p) s = p)"

text \<open>\<open>_resolveTarget\<close>: the element, \<open>null\<close> (\<open>None\<close>), or the error thrown on the way.\<close>

fun resolveTarget :: "document \<Rightarrow> target \<Rightarrow> inject_error + node option" where
  "resolveTarget doc (Element e) = Inr (Some e)"
| "resolveTarget doc (Selector s) =
     (case querySelector doc s of
        SyntaxError \<Rightarrow> Inl SelectorSyntaxError
      | Matched element \<Rightarrow>
          (if element = None \<and> CHR '' '' \<notin> set s \<and> \<not> startsWith s ''.'' \<and> \<not> startsWith s ''[''
           then Inr (getElementById doc s)
           else Inr element))"
| "resolveTarget doc Other = Inr None"

text \<open>\<open>Array.prototype.indexOf\<close>: the first position of an element, \<open>-1\<close> when absent.\<close>

fun indexOf :: "'a list \<Rightarrow> 'a \<Rightarrow> int" where
  "indexOf [] x = - 1"
| "indexOf (y # ys) x =
     (if y = x then 0 else (let i = indexOf ys x in if i < 0 then - 1 else i + 1))"

text \<open>
  The loop of \<open>_getElementPath\<close>: it climbs from the element to \<open>document.body\<close>
  (or to a node without parent), putting the position of each node among its
  parent's children in front of the path. On a parent relation with a cycle the loop
  does not return; the result is then \<open>None\<close>.
\<close>

partial_function (option) path_loop :: "document \<Rightarrow> node option \<Rightarrow> int list \<Rightarrow> int list option" where
  "path_loop doc current path =
     (case current of
        None \<Rightarrow> Some path
      | Some c \<Rightarrow>
          if c = body doc then Some path
          else path_loop doc (parentNode doc c)
                 (indexOf (case parentNode doc c of None \<Rightarrow> [] | Some p \<Rightarrow> children doc p) c # path))"

declare path_loop.simps [code]

text \<open>\<open>path.join('-')\<close>.\<close>

fun join_dash :: "int list \<Rightarrow> string" where
  "join_dash [] = []"
| "join_dash [i] = show_int i"
| "join_dash (i # j # js) = show_int i @ CHR ''-'' # join_dash (j # js)"

definition getElementPath :: "document \<Rightarrow> node \<Rightarrow> string option" where
  "getElementPath doc element = map_option join_dash (path_loop doc (Some element) [])"

text \<open>\<open>_getInstanceKey\<close>: the path is computed only for an element without \<open>id\<close>.\<close>

definition getInstanceKey :: "document \<Rightarrow> string \<Rightarrow> node \<Rightarrow> string option" where
  "getInstanceKey doc componentName targetElement =
     (if elem_id doc targetElement \<noteq> [] then Some (componentName @ '':'' @ elem_id doc targetElement)
      else map_option (\<lambda>p. componentName @ '':'' @ ''_anonymous_'' @ p)
             (getElementPath doc targetElement))"



text \<open>The nodes the loop visits from an element: the element and its ancestors.\<close>

inductive_set chain :: "document \<Rightarrow> node \<Rightarrow> node set" for doc :: document and e :: node where
  chain_self: "e \<in> chain doc e"
| chain_parent: "c \<in> chain doc e \<Longrightarrow> c \<noteq> body doc \<Longrightarrow> parentNode doc c = Some p \<Longrightarrow> p \<in> chain doc e"


definition sample_doc :: document where
  "sample_doc =
     \<lparr> parentNode = (\<lambda>n. if n = 1 \<or> n = 2 then Some 0 else if n = 3 then Some 2 else None),
       children = (\<lambda>n. if n = 0 then [1, 2] else if n = 2 then [3] else []),
       elem_id = (\<lambda>n. if n = 1 then ''header'' else []),
       body = 0,
       querySelector = (\<lambda>s. if s = ''#header'' then Matched (Some 1)
                              else if s = ''1abc'' then SyntaxError
                              else if s = ''main section'' then Matched (Some 3)
                              else Matched None),
       getElementById = (\<lambda>s. if s = ''header'' then Some 1 else None) \<rparr>"



section \<open>The injection engine\<close>

text \<open>
  The engine runs on one thread: a call of \<open>injectComponent\<close> runs until it awaits,
  and goes on when the awaited promise has settled. A call is therefore a sequence of
  blocks, and the state says for every call which \<open>await\<close> it is suspended at. Calls
  and promises are named by numbers.
\<close>

type_synonym call = nat
type_synonym promise = nat

text \<open>A tracked handler: the node and event it listens on, and the listener function.\<close>

record handler =
  on_node :: node
  on_event :: string
  listener :: nat

text \<open>
  One call \<open>injectComponent(componentName, target, options)\<close>. Of the options, the
  data, \<open>append\<close>, \<open>shadow\<close> and whether a transition is given steer the engine's
  state (focus handling changes none of it and is left out). \<open>initializer\<close> lists the
  handlers that the component's \<open>initialize...\<close> method attaches and tracks when it
  is dispatched for this call; it is empty when the component has no such method.
\<close>

record request =
  componentName :: string
  target :: target
  data :: jsval
  appendMode :: bool
  shadow :: bool
  transition :: bool
  initializer :: "handler list"

record config =
  cacheEnabled :: bool
  enableShadowDOM :: bool
  executeScripts :: bool

text \<open>Where a call is suspended.\<close>

datatype phase =
    NotStarted
  | AwaitLock promise
  | AwaitAcquire
  | AwaitLoad
  | AwaitTransitionOut string
  | AwaitInject
  | AwaitTransitionIn
  | AwaitInit
  | Finished "inject_error + node"

text \<open>What a call does to the page and the registries, in the order it happens.\<close>

datatype effect =
    Acquired
  | HandlersCleaned
  | ContentInserted
  | ScriptsExecuted
  | InitializerDispatched
  | Released

text \<open>
  The loader: the lock registry (\<open>injectionLocks\<close>, and the one field
  \<open>_currentReleaseLock\<close> that holds the resolver of the lock promise made last), the
  handler registry, the promises that are resolved, the listeners attached in the
  document, the content of each surface, the phase of every call, and the log of
  effects.
\<close>

record loader =
  injectionLocks :: "string \<rightharpoonup> promise"
  currentReleaseLock :: "promise option"
  eventHandlers :: "string \<rightharpoonup> handler list"
  resolved :: "promise set"
  next_promise :: promise
  listeners :: "handler set"
  content :: "node \<Rightarrow> string list"
  shadow_content :: "node \<Rightarrow> string list"
  phases :: "call \<Rightarrow> phase"
  trace :: "(call \<times> effect) list"

definition new_loader :: loader where
  "new_loader =
     \<lparr> injectionLocks = Map.empty, currentReleaseLock = None, eventHandlers = Map.empty,
       resolved = {}, next_promise = 0, listeners = {}, content = (\<lambda>n. []),
       shadow_content = (\<lambda>n. []), phases = (\<lambda>c. NotStarted), trace = [] \<rparr>"

text \<open>The target element and the lock key of a call, when the target resolves.\<close>

definition located :: "document \<Rightarrow> request \<Rightarrow> (node \<times> string) option" where
  "located doc r =
     (case resolveTarget doc (target r) of
        Inr (Some el) \<Rightarrow> map_option (\<lambda>key. (el, key)) (getInstanceKey doc (componentName r) el)
      | _ \<Rightarrow> None)"

text \<open>
  \<open>_acquireLock\<close>, one round of its loop: while the key is registered the call awaits
  the registered promise; otherwise it registers a new promise and stores its resolver
  in \<open>_currentReleaseLock\<close>.
\<close>

definition acquireLock :: "call \<Rightarrow> string \<Rightarrow> loader \<Rightarrow> loader" where
  "acquireLock c key s =
     (case injectionLocks s key of
        Some p \<Rightarrow> s\<lparr>phases := (phases s)(c := AwaitLock p)\<rparr>
      | None \<Rightarrow>
          s\<lparr>injectionLocks := (injectionLocks s)(key \<mapsto> next_promise s),
            currentReleaseLock := Some (next_promise s),
            next_promise := Suc (next_promise s),
            phases := (phases s)(c := AwaitAcquire),
            trace := trace s @ [(c, Acquired)]\<rparr>)"

text \<open>
  \<open>_releaseLock\<close>: it calls the resolver stored in \<open>_currentReleaseLock\<close>, if any,
  clears that field, and deletes the key.
\<close>

definition releaseLock :: "string \<Rightarrow> loader \<Rightarrow> loader" where
  "releaseLock key s =
     s\<lparr>resolved := (case currentReleaseLock s of
                       Some p \<Rightarrow> insert p (resolved s)
                     | None \<Rightarrow> resolved s),
       currentReleaseLock := None,
       injectionLocks := (injectionLocks s)(key := None)\<rparr>"

text \<open>\<open>_cleanupEventListeners\<close> and \<open>_trackEventListener\<close>.\<close>

definition cleanupEventListeners :: "string \<Rightarrow> loader \<Rightarrow> loader" where
  "cleanupEventListeners instanceKey s =
     (case eventHandlers s instanceKey of
        None \<Rightarrow> s
      | Some handlers \<Rightarrow>
          s\<lparr>listeners := listeners s - set handlers,
            eventHandlers := (eventHandlers s)(instanceKey := None)\<rparr>)"

definition trackEventListener :: "string \<Rightarrow> handler \<Rightarrow> loader \<Rightarrow> loader" where
  "trackEventListener instanceKey h s =
     s\<lparr>eventHandlers := (eventHandlers s)(instanceKey \<mapsto>
          (case eventHandlers s instanceKey of None \<Rightarrow> [h] | Some hs \<Rightarrow> hs @ [h]))\<rparr>"

text \<open>
  An initializer attaches each of its handlers with \<open>addEventListener\<close> and tracks it
  under the instance key that \<open>initializeComponent\<close> derives again from the component
  name and the element.
\<close>

definition attachHandler :: "string \<Rightarrow> loader \<Rightarrow> handler \<Rightarrow> loader" where
  "attachHandler instanceKey s h =
     trackEventListener instanceKey h (s\<lparr>listeners := insert h (listeners s)\<rparr>)"

definition initializeComponent :: "call \<Rightarrow> request \<Rightarrow> string \<Rightarrow> loader \<Rightarrow> loader" where
  "initializeComponent c r instanceKey s =
     (let s' = foldl (attachHandler instanceKey) s (initializer r)
      in s'\<lparr>phases := (phases s')(c := AwaitInit),
            trace := trace s' @ [(c, InitializerDispatched)]\<rparr>)"

text \<open>
  The insertion of the processed text: into the shadow root (always replacing) when
  \<open>shadow\<close> is asked for and enabled, else appended to or replacing the content of
  the element.
\<close>

definition injectContent :: "config \<Rightarrow> call \<Rightarrow> request \<Rightarrow> node \<Rightarrow> string \<Rightarrow> loader \<Rightarrow> loader" where
  "injectContent cfg c r el processedHtml s =
     (let s' = (if shadow r \<and> enableShadowDOM cfg
                then s\<lparr>shadow_content := (shadow_content s)(el := [processedHtml])\<rparr>
                else if appendMode r
                then s\<lparr>content := (content s)(el := content s el @ [processedHtml])\<rparr>
                else s\<lparr>content := (content s)(el := [processedHtml])\<rparr>)
      in s'\<lparr>phases := (phases s')(c := AwaitInject),
            trace := trace s' @ [(c, ContentInserted)]\<rparr>)"

text \<open>The end of a call that holds the lock: \<open>finally\<close> releases it, on every path.\<close>

definition finish :: "call \<Rightarrow> string \<Rightarrow> inject_error + node \<Rightarrow> loader \<Rightarrow> loader" where
  "finish c key result s =
     (let s' = releaseLock key s
      in s'\<lparr>phases := (phases s')(c := Finished result),
            trace := trace s' @ [(c, Released)]\<rparr>)"

text \<open>The block after the fragment is loaded: cleanup, rendering, then transition or insertion.\<close>

definition afterLoad :: "config \<Rightarrow> call \<Rightarrow> request \<Rightarrow> node \<Rightarrow> string \<Rightarrow> string \<Rightarrow> loader \<Rightarrow> loader" where
  "afterLoad cfg c r el key html s =
     (let s1 = (if \<not> appendMode r
                then (let s0 = cleanupEventListeners key s
                      in s0\<lparr>trace := trace s0 @ [(c, HandlersCleaned)]\<rparr>)
                else s);
          processedHtml = processTemplate html (data r)
      in if transition r \<and> \<not> appendMode r
         then s1\<lparr>phases := (phases s1)(c := AwaitTransitionOut processedHtml)\<rparr>
         else injectContent cfg c r el processedHtml s1)"

text \<open>The block after the insertion (and its scripts) is done.\<close>

definition afterInject :: "call \<Rightarrow> request \<Rightarrow> string \<Rightarrow> loader \<Rightarrow> loader" where
  "afterInject c r key s =
     (let s1 = s\<lparr>trace := trace s @ [(c, ScriptsExecuted)]\<rparr>
      in if transition r \<and> \<not> appendMode r
         then s1\<lparr>phases := (phases s1)(c := AwaitTransitionIn)\<rparr>
         else initializeComponent c r key s1)"

text \<open>
  One step of the engine: the call \<open>c\<close> is started, or is resumed with the outcome
  \<open>res\<close> of what it awaits (an error, or a value: the loaded text for the load). A
  call that awaits an unresolved lock promise cannot move, and a finished call does
  nothing. A call whose key computation does not return stays where it is.
\<close>

definition step :: "document \<Rightarrow> config \<Rightarrow> (call \<Rightarrow> request) \<Rightarrow> loader \<Rightarrow> call \<times> (inject_error + string) \<Rightarrow> loader" where
  "step doc cfg reqs s ev =
     (let c = fst ev; res = snd ev; r = reqs c in
      case phases s c of
        NotStarted \<Rightarrow>
          (case resolveTarget doc (target r) of
             Inl e \<Rightarrow> s\<lparr>phases := (phases s)(c := Finished (Inl e))\<rparr>
           | Inr None \<Rightarrow> s\<lparr>phases := (phases s)(c := Finished (Inl TargetNotFound))\<rparr>
           | Inr (Some el) \<Rightarrow>
               (case getInstanceKey doc (componentName r) el of
                  None \<Rightarrow> s
                | Some key \<Rightarrow> acquireLock c key s))
      | Finished result \<Rightarrow> s
      | ph \<Rightarrow>
          (case located doc r of
             None \<Rightarrow> s
           | Some (el, key) \<Rightarrow>
               (case ph of
                  AwaitLock p \<Rightarrow> if p \<in> resolved s then acquireLock c key s else s
                | AwaitAcquire \<Rightarrow> s\<lparr>phases := (phases s)(c := AwaitLoad)\<rparr>
                | AwaitLoad \<Rightarrow>
                    (case res of
                       Inl e \<Rightarrow> finish c key (Inl e) s
                     | Inr html \<Rightarrow> afterLoad cfg c r el key html s)
                | AwaitTransitionOut processedHtml \<Rightarrow>
                    (case res of
                       Inl e \<Rightarrow> finish c key (Inl e) s
                     | Inr v \<Rightarrow> injectContent cfg c r el processedHtml s)
                | AwaitInject \<Rightarrow>
                    (case res of
                       Inl e \<Rightarrow> finish c key (Inl e) s
                     | Inr v \<Rightarrow> afterInject c r key s)
                | AwaitTransitionIn \<Rightarrow>
                    (case res of
                       Inl e \<Rightarrow> finish c key (Inl e) s
                     | Inr v \<Rightarrow> initializeComponent c r key s)
                | AwaitInit \<Rightarrow>
                    (case res of
                       Inl e \<Rightarrow> finish c key (Inl e) s
                     | Inr v \<Rightarrow> finish c key (Inr el) s)
                | _ \<Rightarrow> s)))"

definition run :: "document \<Rightarrow> config \<Rightarrow> (call \<Rightarrow> request) \<Rightarrow> loader \<Rightarrow> (call \<times> (inject_error + string)) list \<Rightarrow> loader" where
  "run doc cfg reqs s evs = foldl (step doc cfg reqs) s evs"

text \<open>A call holds its lock from the acquisition to the end of the call.\<close>

fun holding :: "phase \<Rightarrow> bool" where
  "holding AwaitAcquire = True"
| "holding AwaitLoad = True"
| "holding (AwaitTransitionOut h) = True"
| "holding AwaitInject = True"
| "holding AwaitTransitionIn = True"
| "holding AwaitInit = True"
| "holding ph = False"

definition key_of :: "document \<Rightarrow> (call \<Rightarrow> request) \<Rightarrow> call \<Rightarrow> string option" where
  "key_of doc reqs c = map_option snd (located doc (reqs c))"

text \<open>
  Mutual exclusion on the state: a call that holds a lock has a key, the key is
  registered, and no other call holds a lock for the same key.
\<close>

definition lock_inv :: "document \<Rightarrow> (call \<Rightarrow> request) \<Rightarrow> loader \<Rightarrow> bool" where
  "lock_inv doc reqs s =
     ((\<forall>c. holding (phases s c) \<longrightarrow> (\<exists>k. key_of doc reqs c = Some k \<and> injectionLocks s k \<noteq> None)) \<and>
      (\<forall>c c'. holding (phases s c) \<and> holding (phases s c') \<and> key_of doc reqs c = key_of doc reqs c'
          \<longrightarrow> c = c'))"

text \<open>
  Mutual exclusion on the log of effects: when a call has an effect other than its
  release, and a different call with the same key has an effect later, the first call
  has released its lock in between.
\<close>

definition exclusive :: "(call \<Rightarrow> string option) \<Rightarrow> (call \<times> effect) list \<Rightarrow> bool" where
  "exclusive K tr =
     (\<forall>i j. i < j \<and> j < length tr \<and> fst (tr ! i) \<noteq> fst (tr ! j) \<and>
            K (fst (tr ! i)) = K (fst (tr ! j)) \<and> snd (tr ! i) \<noteq> Released
        \<longrightarrow> (\<exists>m. i < m \<and> m < j \<and> tr ! m = (fst (tr ! i), Released)))"

text \<open>A call has no open lock section in the log: it has no effect, or its last one is its release.\<close>

definition closed :: "call \<Rightarrow> (call \<times> effect) list \<Rightarrow> bool" where
  "closed c tr =
     (let es = filter (\<lambda>x. fst x = c) tr in es = [] \<or> snd (last es) = Released)"

definition trace_inv :: "document \<Rightarrow> (call \<Rightarrow> request) \<Rightarrow> loader \<Rightarrow> bool" where
  "trace_inv doc reqs s =
     (lock_inv doc reqs s \<and> exclusive (key_of doc reqs) (trace s) \<and>
      (\<forall>c. \<not> holding (phases s c) \<longrightarrow> closed c (trace s)))"

text \<open>The handlers tracked for a key.\<close>

definition tracked :: "loader \<Rightarrow> string \<Rightarrow> handler list" where
  "tracked s key = (case eventHandlers s key of None \<Rightarrow> [] | Some hs \<Rightarrow> hs)"



text \<open>The registry holds a key only while some call holds the lock of that key.\<close>

definition registry_inv :: "document \<Rightarrow> (call \<Rightarrow> request) \<Rightarrow> loader \<Rightarrow> bool" where
  "registry_inv doc reqs s =
     (\<forall>k. injectionLocks s k \<noteq> None \<longrightarrow> (\<exists>c. holding (phases s c) \<and> key_of doc reqs c = Some k))"

text \<open>
  A sample page load on the small tree: the calls 0 and 1 both inject \<open>nav\<close> into the
  element with the id \<open>header\<close>, and call 2 injects \<open>footer\<close> into element 3, which
  has no id. The targets of all other calls do not resolve.
\<close>

definition sample_cfg :: config where
  "sample_cfg = \<lparr> cacheEnabled = True, enableShadowDOM = False, executeScripts = True \<rparr>"

definition click_handler :: "node \<Rightarrow> nat \<Rightarrow> handler" where
  "click_handler n f = \<lparr> on_node = n, on_event = ''click'', listener = f \<rparr>"

definition sample_reqs :: "call \<Rightarrow> request" where
  "sample_reqs c =
     (if c = 0 then
        \<lparr> componentName = ''nav'', target = Selector ''header'', data = Obj [], appendMode = False,
          shadow = False, transition = False, initializer = [click_handler 1 10, click_handler 1 11] \<rparr>
      else if c = 1 then
        \<lparr> componentName = ''nav'', target = Selector ''header'', data = Obj [], appendMode = False,
          shadow = False, transition = False, initializer = [click_handler 1 20, click_handler 1 21] \<rparr>
      else if c = 2 then
        \<lparr> componentName = ''footer'', target = Element 3, data = Obj [], appendMode = False,
          shadow = False, transition = False, initializer = [] \<rparr>
      else if c = 3 then
        \<lparr> componentName = ''nav'', target = Selector ''.missing'', data = Obj [], appendMode = False,
          shadow = False, transition = False, initializer = [] \<rparr>
      else
        \<lparr> componentName = ''nav'', target = Other, data = Obj [], appendMode = False,
          shadow = False, transition = False, initializer = [] \<rparr>)"

text \<open>
  Call 0 takes the lock of its key, call 1 queues behind it, call 0 runs to its end,
  and call 1 then takes the lock and loads.
\<close>

definition queued_schedule :: "(call \<times> (inject_error + string)) list" where
  "queued_schedule =
     [(0, Inr []), (1, Inr []), (0, Inr []), (0, Inr ''<p>nav</p>''), (0, Inr []), (0, Inr []),
      (1, Inr []), (1, Inr [])]"

text \<open>
  Call 0 takes the lock of its key and call 1 queues behind it; call 2 takes the lock
  of another key; the load of call 2 fails, then call 0 runs to its end.
\<close>

definition lost_wakeup_schedule :: "(call \<times> (inject_error + string)) list" where
  "lost_wakeup_schedule =
     [(0, Inr []), (1, Inr []), (2, Inr []), (0, Inr []), (2, Inr []),
      (2, Inl RetrievalError),
      (0, Inr ''<p>nav</p>''), (0, Inr []), (0, Inr [])]"


section \<open>The fragment store\<close>

text \<open>
  \<open>loadComponent\<close> runs until it returns or awaits the retrieval it started. A caller
  is then in one of four states: it got the text from the cache; it started the
  retrieval and awaits it (it will fill the cache and delete the registration when
  resumed); it found a retrieval in flight and returned that promise, so that it
  settles with it; or, as the starter, it has been resumed and has returned.
\<close>

datatype caller_state =
    FromCache string
  | Owner string promise
  | Joined promise
  | Returned promise "inject_error + string"

text \<open>
  The store: the cache \<open>components\<close>, the registry \<open>loadingStates\<close> of retrievals in
  flight, the outcome of every retrieval promise that has settled, the log of
  retrievals issued by \<open>_fetchComponent\<close>, the log of the executions of
  \<open>loadingStates.delete\<close>, and the state of every caller.
\<close>

record store =
  components :: "string \<rightharpoonup> string"
  loadingStates :: "string \<rightharpoonup> promise"
  settled :: "promise \<rightharpoonup> inject_error + string"
  next_fetch :: promise
  fetches :: "(string \<times> promise) list"
  deletions :: "string list"
  callers :: "call \<rightharpoonup> caller_state"

definition new_store :: store where
  "new_store =
     \<lparr> components = Map.empty, loadingStates = Map.empty, settled = Map.empty, next_fetch = 0,
       fetches = [], deletions = [], callers = Map.empty \<rparr>"

text \<open>
  What happens to the store: a caller calls \<open>loadComponent(name)\<close>; the retrieval
  behind a promise settles; the caller that started a retrieval is resumed.
\<close>

datatype load_event =
    Call call string
  | Settle promise "inject_error + string"
  | Resume call

text \<open>\<open>loadComponent\<close> up to its first \<open>await\<close>, for a caller not seen before.\<close>

definition loadComponent :: "config \<Rightarrow> call \<Rightarrow> string \<Rightarrow> store \<Rightarrow> store" where
  "loadComponent cfg c name s =
     (if cacheEnabled cfg \<and> components s name \<noteq> None
      then s\<lparr>callers := (callers s)(c \<mapsto> FromCache (the (components s name)))\<rparr>
      else (case loadingStates s name of
              Some p \<Rightarrow> s\<lparr>callers := (callers s)(c \<mapsto> Joined p)\<rparr>
            | None \<Rightarrow>
                s\<lparr>fetches := fetches s @ [(name, next_fetch s)],
                  loadingStates := (loadingStates s)(name \<mapsto> next_fetch s),
                  next_fetch := Suc (next_fetch s),
                  callers := (callers s)(c \<mapsto> Owner name (next_fetch s))\<rparr>))"

text \<open>
  The rest of \<open>loadComponent\<close> for the caller that started the retrieval: on success
  the text is cached when caching is on; \<open>finally\<close> deletes the registration; the
  outcome (the text, or the error thrown again) is the caller's.
\<close>

definition resumeOwner :: "config \<Rightarrow> call \<Rightarrow> string \<Rightarrow> promise \<Rightarrow> inject_error + string \<Rightarrow> store \<Rightarrow> store" where
  "resumeOwner cfg c name p outcome s =
     (let s1 = (case outcome of
                  Inr html \<Rightarrow>
                    if cacheEnabled cfg
                    then s\<lparr>components := (components s)(name \<mapsto> html)\<rparr>
                    else s
                | Inl e \<Rightarrow> s)
      in s1\<lparr>loadingStates := (loadingStates s1)(name := None),
            deletions := deletions s1 @ [name],
            callers := (callers s1)(c \<mapsto> Returned p outcome)\<rparr>)"

definition store_step :: "config \<Rightarrow> store \<Rightarrow> load_event \<Rightarrow> store" where
  "store_step cfg s ev =
     (case ev of
        Call c name \<Rightarrow>
          (if callers s c = None then loadComponent cfg c name s else s)
      | Settle p outcome \<Rightarrow>
          (if p < next_fetch s \<and> settled s p = None then s\<lparr>settled := (settled s)(p \<mapsto> outcome)\<rparr>
           else s)
      | Resume c \<Rightarrow>
          (case callers s c of
             Some (Owner name p) \<Rightarrow>
               (case settled s p of
                  Some outcome \<Rightarrow> resumeOwner cfg c name p outcome s
                | None \<Rightarrow> s)
           | _ \<Rightarrow> s))"

definition store_run :: "config \<Rightarrow> store \<Rightarrow> load_event list \<Rightarrow> store" where
  "store_run cfg s evs = foldl (store_step cfg) s evs"

text \<open>The promise a caller's result comes from, and the result once there is one.\<close>

fun bound_to :: "caller_state \<Rightarrow> promise option" where
  "bound_to (FromCache html) = None"
| "bound_to (Owner n p) = Some p"
| "bound_to (Joined p) = Some p"
| "bound_to (Returned p r) = Some p"

definition result :: "store \<Rightarrow> call \<Rightarrow> (inject_error + string) option" where
  "result s c =
     (case callers s c of
        None \<Rightarrow> None
      | Some (FromCache html) \<Rightarrow> Some (Inr html)
      | Some (Owner n p) \<Rightarrow> None
      | Some (Joined p) \<Rightarrow> settled s p
      | Some (Returned p r) \<Rightarrow> Some r)"

text \<open>
  The store is consistent: a registration belongs to exactly one caller that started
  a retrieval and has not been resumed; the promises in use were issued; a caller that
  has returned holds the outcome of its promise; only issued promises have settled; and
  for every name the retrievals
  issued are as many as the registrations deleted, plus one when one is registered.
\<close>

definition store_inv :: "store \<Rightarrow> bool" where
  "store_inv s =
     ((\<forall>c n p. callers s c = Some (Owner n p) \<longrightarrow> loadingStates s n = Some p) \<and>
      (\<forall>n p. loadingStates s n = Some p \<longrightarrow> p < next_fetch s) \<and>
      (\<forall>n p. loadingStates s n = Some p \<longrightarrow> (\<exists>c. callers s c = Some (Owner n p))) \<and>
      (\<forall>c c' n n' p. callers s c = Some (Owner n p) \<and> callers s c' = Some (Owner n' p) \<longrightarrow> c = c') \<and>
      (\<forall>c p r. callers s c = Some (Returned p r) \<longrightarrow> settled s p = Some r) \<and>
      (\<forall>p r. settled s p = Some r \<longrightarrow> p < next_fetch s) \<and>
      (\<forall>n. length (filter (\<lambda>x. fst x = n) (fetches s)) =
            length (filter (\<lambda>m. m = n) (deletions s)) + (if loadingStates s n = None then 0 else 1)))"

text \<open>
  A sample load: the callers 0, 1 and 2 ask for \<open>nav\<close> while it is in flight, the
  retrieval settles, and caller 0, which started it, is resumed.
\<close>

definition sample_load :: "load_event list" where
  "sample_load =
     [Call 0 ''nav'', Call 1 ''nav'', Call 2 ''nav'', Settle 0 (Inr ''<nav></nav>''), Resume 0]"

text \<open>The calls of several callers for one name, one after the other.\<close>

definition calls_for :: "string \<Rightarrow> call list \<Rightarrow> load_event list" where
  "calls_for n cs = map (\<lambda>c. Call c n) cs"

section \<open>Insertion with script execution\<close>













section \<open>The batch loader\<close>

text \<open>
  \<open>loadPageComponents\<close> starts one injection per entry of the map and waits for all
  of them. Its state: the total, the counter \<open>loaded\<close>, the entries whose injection
  has not settled, the calls of \<open>onProgress\<close>, the names logged as failed, the flag
  \<open>initialized\<close> of the loader and the number of \<open>components:ready\<close> events.
\<close>

record batch =
  total_entries :: nat
  loaded :: nat
  pending :: "string list"
  progress :: "(nat \<times> nat \<times> string) list"
  failures :: "string list"
  initialized :: bool
  ready :: nat






section \<open>Properties of the template engine\<close>










subsection \<open>Substitution, escaping and pass-through\<close>





subsection \<open>The two template engines agree\<close>

text \<open>
  Claim C10: the template engine of the reduced engine computes the same function as
  the one of the full engine.
\<close>

theorem processTemplate_utils_eq: "processTemplate_utils = processTemplate"
proof (intro ext)
  fix html d
  have nested: "\<And>v p. getNestedValue_utils v p = getNestedValue v p"
    by (simp add: getNestedValue_utils_def getNestedValue_def)
  have esc: "\<And>t. escapeHtml_utils t = escapeHtml t"
    by (simp add: escapeHtml_utils_def escapeHtml_def)
  have cb: "\<And>v. (\<lambda>m key. let trimmedKey = trim key; w = getNestedValue_utils v trimmedKey
                      in if w \<noteq> Undefined then escapeHtml_utils (to_string w) else m)
               = substitute v"
    by (intro ext) (simp add: substitute_def nested esc Let_def)
  show "processTemplate_utils html d = processTemplate html d"
    unfolding processTemplate_utils_def processTemplate_def cb by (rule refl)
qed
section \<open>Properties of target resolution and instance keys\<close>

lemma path_loop_None [simp]: "path_loop doc None path = Some path"
  by (subst path_loop.simps) simp


lemma indexOf_absent: "x \<notin> set ys \<Longrightarrow> indexOf ys x = - 1"
  by (induction ys) (auto simp: Let_def)








lemma show_int_nat [simp]: "show_int (int n) = digits n"
  by (simp add: show_int_def)









subsection \<open>Instance keys\<close>






section \<open>Properties of the injection engine\<close>

lemma foldl_attach_fields:
  "injectionLocks (foldl (attachHandler k) s hs) = injectionLocks s"
  "currentReleaseLock (foldl (attachHandler k) s hs) = currentReleaseLock s"
  "resolved (foldl (attachHandler k) s hs) = resolved s"
  "next_promise (foldl (attachHandler k) s hs) = next_promise s"
  "phases (foldl (attachHandler k) s hs) = phases s"
  "trace (foldl (attachHandler k) s hs) = trace s"
  "content (foldl (attachHandler k) s hs) = content s"
  "shadow_content (foldl (attachHandler k) s hs) = shadow_content s"
  by (induction hs arbitrary: s; simp add: attachHandler_def trackEventListener_def)+

lemma step_cases [case_names idle reject wait acquire load_started failed loaded faded_out injected faded_in completed]:
  fixes doc cfg reqs s c res
  defines "s' \<equiv> step doc cfg reqs s (c, res)"
  obtains
    "s' = s"
  | e where "phases s c = NotStarted" "located doc (reqs c) = None"
      "s' = s\<lparr>phases := (phases s)(c := Finished (Inl e))\<rparr>"
  | el key p where "located doc (reqs c) = Some (el, key)" "\<not> holding (phases s c)"
      "injectionLocks s key = Some p" "s' = s\<lparr>phases := (phases s)(c := AwaitLock p)\<rparr>"
  | el key where "located doc (reqs c) = Some (el, key)" "\<not> holding (phases s c)"
      "injectionLocks s key = None" "s' = acquireLock c key s"
  | el key where "located doc (reqs c) = Some (el, key)" "phases s c = AwaitAcquire"
      "s' = s\<lparr>phases := (phases s)(c := AwaitLoad)\<rparr>"
  | el key e where "located doc (reqs c) = Some (el, key)" "holding (phases s c)"
      "s' = finish c key (Inl e) s"
  | el key html where "located doc (reqs c) = Some (el, key)" "phases s c = AwaitLoad"
      "s' = afterLoad cfg c (reqs c) el key html s"
  | el key h where "located doc (reqs c) = Some (el, key)" "phases s c = AwaitTransitionOut h"
      "s' = injectContent cfg c (reqs c) el h s"
  | el key where "located doc (reqs c) = Some (el, key)" "phases s c = AwaitInject"
      "s' = afterInject c (reqs c) key s"
  | el key where "located doc (reqs c) = Some (el, key)" "phases s c = AwaitTransitionIn"
      "s' = initializeComponent c (reqs c) key s"
  | el key where "located doc (reqs c) = Some (el, key)" "phases s c = AwaitInit"
      "s' = finish c key (Inr el) s"
proof (cases "phases s c")
  case NotStarted
  show ?thesis
  proof (cases "resolveTarget doc (target (reqs c))")
    case (Inl e)
    then have "located doc (reqs c) = None"
      and "s' = s\<lparr>phases := (phases s)(c := Finished (Inl e))\<rparr>"
      using NotStarted unfolding s'_def by (simp_all add: step_def located_def)
    then show ?thesis using that(2) NotStarted by blast
  next
    case (Inr t)
    show ?thesis
    proof (cases t)
      case None
      then have "located doc (reqs c) = None"
        and "s' = s\<lparr>phases := (phases s)(c := Finished (Inl TargetNotFound))\<rparr>"
        using NotStarted Inr unfolding s'_def by (simp_all add: step_def located_def)
      then show ?thesis using that(2) NotStarted by blast
    next
      case (Some el)
      show ?thesis
      proof (cases "getInstanceKey doc (componentName (reqs c)) el")
        case None
        then have "s' = s"
          using NotStarted Inr Some unfolding s'_def by (simp add: step_def)
        then show ?thesis using that(1) by blast
      next
        case (Some key)
        then have loc: "located doc (reqs c) = Some (el, key)"
          and st: "s' = acquireLock c key s"
          using NotStarted Inr \<open>t = Some el\<close> unfolding s'_def
          by (simp_all add: step_def located_def)
        show ?thesis
        proof (cases "injectionLocks s key")
          case None
          then show ?thesis using that(4) [OF loc _ None st] NotStarted by simp
        next
          case (Some p)
          then have "s' = s\<lparr>phases := (phases s)(c := AwaitLock p)\<rparr>"
            using st by (simp add: acquireLock_def)
          then show ?thesis using that(3) [OF loc _ Some] NotStarted by simp
        qed
      qed
    qed
  qed
next
  case (Finished r)
  then show ?thesis using that(1) unfolding s'_def by (simp add: step_def)
next
  case (AwaitLock p)
  show ?thesis
  proof (cases "located doc (reqs c)")
    case None
    then have "s' = s" using AwaitLock unfolding s'_def by (simp add: step_def)
    then show ?thesis using that(1) by blast
  next
    case (Some lk)
    obtain el key where lk: "lk = (el, key)" by (cases lk)
    have loc: "located doc (reqs c) = Some (el, key)" using Some lk by simp
    show ?thesis
    proof (cases "p \<in> resolved s")
      case False
      then have "s' = s" using AwaitLock loc unfolding s'_def by (simp add: step_def)
      then show ?thesis using that(1) by blast
    next
      case True
      then have st: "s' = acquireLock c key s"
        using AwaitLock loc unfolding s'_def by (simp add: step_def)
      show ?thesis
      proof (cases "injectionLocks s key")
        case None
        then show ?thesis using that(4) [OF loc _ None st] AwaitLock by simp
      next
        case (Some q)
        then have "s' = s\<lparr>phases := (phases s)(c := AwaitLock q)\<rparr>"
          using st by (simp add: acquireLock_def)
        then show ?thesis using that(3) [OF loc _ Some] AwaitLock by simp
      qed
    qed
  qed
next
  case AwaitAcquire
  then show ?thesis
    using that(1,5) unfolding s'_def
    by (cases "located doc (reqs c)") (auto simp: step_def)
next
  case AwaitLoad
  then show ?thesis
    using that(1,6,7) unfolding s'_def
    by (cases "located doc (reqs c)"; cases res) (auto simp: step_def)
next
  case (AwaitTransitionOut h)
  then show ?thesis
    using that(1,6,8) unfolding s'_def
    by (cases "located doc (reqs c)"; cases res) (auto simp: step_def)
next
  case AwaitInject
  then show ?thesis
    using that(1,6,9) unfolding s'_def
    by (cases "located doc (reqs c)"; cases res) (auto simp: step_def)
next
  case AwaitTransitionIn
  then show ?thesis
    using that(1,6,10) unfolding s'_def
    by (cases "located doc (reqs c)"; cases res) (auto simp: step_def)
next
  case AwaitInit
  then show ?thesis
    using that(1,6,11) unfolding s'_def
    by (cases "located doc (reqs c)"; cases res) (auto simp: step_def)
qed

lemma acquireLock_free:
  "injectionLocks s key = None \<Longrightarrow>
   phases (acquireLock c key s) = (phases s)(c := AwaitAcquire) \<and>
   injectionLocks (acquireLock c key s) = (injectionLocks s)(key \<mapsto> next_promise s) \<and>
   currentReleaseLock (acquireLock c key s) = Some (next_promise s) \<and>
   next_promise (acquireLock c key s) = Suc (next_promise s) \<and>
   resolved (acquireLock c key s) = resolved s \<and>
   eventHandlers (acquireLock c key s) = eventHandlers s \<and>
   listeners (acquireLock c key s) = listeners s \<and>
   trace (acquireLock c key s) = trace s @ [(c, Acquired)]"
  by (simp add: acquireLock_def)

lemma finish_fields:
  "phases (finish c key r s) = (phases s)(c := Finished r)"
  "injectionLocks (finish c key r s) = (injectionLocks s)(key := None)"
  "currentReleaseLock (finish c key r s) = None"
  "next_promise (finish c key r s) = next_promise s"
  "resolved (finish c key r s) =
     (case currentReleaseLock s of Some p \<Rightarrow> insert p (resolved s) | None \<Rightarrow> resolved s)"
  "eventHandlers (finish c key r s) = eventHandlers s"
  "listeners (finish c key r s) = listeners s"
  "trace (finish c key r s) = trace s @ [(c, Released)]"
  by (simp_all add: finish_def releaseLock_def Let_def)

lemma injectContent_fields:
  "phases (injectContent cfg c r el h s) = (phases s)(c := AwaitInject)"
  "injectionLocks (injectContent cfg c r el h s) = injectionLocks s"
  "currentReleaseLock (injectContent cfg c r el h s) = currentReleaseLock s"
  "next_promise (injectContent cfg c r el h s) = next_promise s"
  "resolved (injectContent cfg c r el h s) = resolved s"
  "eventHandlers (injectContent cfg c r el h s) = eventHandlers s"
  "listeners (injectContent cfg c r el h s) = listeners s"
  "trace (injectContent cfg c r el h s) = trace s @ [(c, ContentInserted)]"
  by (simp_all add: injectContent_def Let_def)

lemma initializeComponent_fields:
  "phases (initializeComponent c r key s) = (phases s)(c := AwaitInit)"
  "injectionLocks (initializeComponent c r key s) = injectionLocks s"
  "currentReleaseLock (initializeComponent c r key s) = currentReleaseLock s"
  "next_promise (initializeComponent c r key s) = next_promise s"
  "resolved (initializeComponent c r key s) = resolved s"
  "trace (initializeComponent c r key s) = trace s @ [(c, InitializerDispatched)]"
  by (simp_all add: initializeComponent_def Let_def foldl_attach_fields)

lemma cleanup_fields:
  "phases (cleanupEventListeners key s) = phases s"
  "injectionLocks (cleanupEventListeners key s) = injectionLocks s"
  "currentReleaseLock (cleanupEventListeners key s) = currentReleaseLock s"
  "next_promise (cleanupEventListeners key s) = next_promise s"
  "resolved (cleanupEventListeners key s) = resolved s"
  "trace (cleanupEventListeners key s) = trace s"
  by (simp_all add: cleanupEventListeners_def split: option.splits)

lemma afterLoad_fields:
  "injectionLocks (afterLoad cfg c r el key html s) = injectionLocks s"
  "currentReleaseLock (afterLoad cfg c r el key html s) = currentReleaseLock s"
  "next_promise (afterLoad cfg c r el key html s) = next_promise s"
  "resolved (afterLoad cfg c r el key html s) = resolved s"
  "holding (phases (afterLoad cfg c r el key html s) c)"
  "x \<noteq> c \<Longrightarrow> phases (afterLoad cfg c r el key html s) x = phases s x"
  by (simp_all add: afterLoad_def Let_def injectContent_fields cleanup_fields)

lemma afterInject_fields:
  "injectionLocks (afterInject c r key s) = injectionLocks s"
  "currentReleaseLock (afterInject c r key s) = currentReleaseLock s"
  "next_promise (afterInject c r key s) = next_promise s"
  "resolved (afterInject c r key s) = resolved s"
  "holding (phases (afterInject c r key s) c)"
  "x \<noteq> c \<Longrightarrow> phases (afterInject c r key s) x = phases s x"
  by (simp_all add: afterInject_def Let_def initializeComponent_fields)

text \<open>The four ways a step can change who holds which lock.\<close>

lemma lock_inv_idle:
  assumes "lock_inv doc reqs s" and "\<not> holding (phases s c)" and "\<not> holding (phases s' c)"
    and "\<And>x. x \<noteq> c \<Longrightarrow> phases s' x = phases s x" and "injectionLocks s' = injectionLocks s"
  shows "lock_inv doc reqs s'"
proof -
  have same: "\<And>x. holding (phases s' x) = holding (phases s x)"
    using assms(2,3,4) by metis
  show ?thesis using assms(1,5) unfolding lock_inv_def same by simp
qed

lemma lock_inv_progress:
  assumes "lock_inv doc reqs s" and "holding (phases s c)" and "holding (phases s' c)"
    and "\<And>x. x \<noteq> c \<Longrightarrow> phases s' x = phases s x" and "injectionLocks s' = injectionLocks s"
  shows "lock_inv doc reqs s'"
proof -
  have same: "\<And>x. holding (phases s' x) = holding (phases s x)"
    using assms(2,3,4) by metis
  show ?thesis using assms(1,5) unfolding lock_inv_def same by simp
qed

lemma lock_inv_acquire:
  assumes "lock_inv doc reqs s" and "\<not> holding (phases s c)"
    and "key_of doc reqs c = Some k" and "injectionLocks s k = None"
    and "\<And>x. x \<noteq> c \<Longrightarrow> phases s' x = phases s x"
    and "injectionLocks s' = (injectionLocks s)(k \<mapsto> p)"
  shows "lock_inv doc reqs s'"
proof -
  have old: "\<And>x. x \<noteq> c \<Longrightarrow> holding (phases s' x) \<Longrightarrow>
      holding (phases s x) \<and> (\<exists>kx. key_of doc reqs x = Some kx \<and> kx \<noteq> k \<and> injectionLocks s kx \<noteq> None)"
  proof -
    fix x
    assume "x \<noteq> c" and "holding (phases s' x)"
    then have hx: "holding (phases s x)" using assms(5) by simp
    then obtain kx where kx: "key_of doc reqs x = Some kx" "injectionLocks s kx \<noteq> None"
      using assms(1) unfolding lock_inv_def by blast
    then have "kx \<noteq> k" using assms(4) by auto
    then show "holding (phases s x) \<and> (\<exists>kx. key_of doc reqs x = Some kx \<and> kx \<noteq> k \<and> injectionLocks s kx \<noteq> None)"
      using hx kx by blast
  qed
  show ?thesis
    unfolding lock_inv_def
  proof (intro conjI allI impI)
    fix a
    assume a: "holding (phases s' a)"
    show "\<exists>k. key_of doc reqs a = Some k \<and> injectionLocks s' k \<noteq> None"
    proof (cases "a = c")
      case True
      then show ?thesis using assms(3,6) by simp
    next
      case False
      then show ?thesis using old [OF False a] assms(6) by auto
    qed
  next
    fix a b
    assume h: "holding (phases s' a) \<and> holding (phases s' b) \<and> key_of doc reqs a = key_of doc reqs b"
    show "a = b"
    proof (cases "a = c")
      case ac: True
      show ?thesis
      proof (cases "b = c")
        case True
        then show ?thesis using ac by simp
      next
        case False
        then show ?thesis using old [OF False] h ac assms(3) by auto
      qed
    next
      case ac: False
      show ?thesis
      proof (cases "b = c")
        case True
        then show ?thesis using old [OF ac] h assms(3) by auto
      next
        case False
        then have "holding (phases s a) \<and> holding (phases s b)"
          using old [OF ac] old [OF False] h by blast
        then show ?thesis using h assms(1) unfolding lock_inv_def by blast
      qed
    qed
  qed
qed

lemma lock_inv_release:
  assumes "lock_inv doc reqs s" and "holding (phases s c)" and "\<not> holding (phases s' c)"
    and "key_of doc reqs c = Some k"
    and "\<And>x. x \<noteq> c \<Longrightarrow> phases s' x = phases s x"
    and "injectionLocks s' = (injectionLocks s)(k := None)"
  shows "lock_inv doc reqs s'"
  unfolding lock_inv_def
proof (intro conjI allI impI)
  fix a
  assume a: "holding (phases s' a)"
  then have ac: "a \<noteq> c" using assms(3) by auto
  then have ha: "holding (phases s a)" using a assms(5) by simp
  then obtain ka where ka: "key_of doc reqs a = Some ka" "injectionLocks s ka \<noteq> None"
    using assms(1) unfolding lock_inv_def by blast
  have "ka \<noteq> k" using ka(1) assms(1,2,4) ac ha unfolding lock_inv_def by metis
  then show "\<exists>k. key_of doc reqs a = Some k \<and> injectionLocks s' k \<noteq> None"
    using ka assms(6) by simp
next
  fix a b
  assume h: "holding (phases s' a) \<and> holding (phases s' b) \<and> key_of doc reqs a = key_of doc reqs b"
  then have "a \<noteq> c" and "b \<noteq> c" using assms(3) by auto
  then have "holding (phases s a) \<and> holding (phases s b)" using h assms(5) by simp
  then show "a = b" using h assms(1) unfolding lock_inv_def by blast
qed

lemma key_of_located: "located doc (reqs c) = Some (el, key) \<Longrightarrow> key_of doc reqs c = Some key"
  by (simp add: key_of_def)

lemma lock_inv_step:
  assumes "lock_inv doc reqs s"
  shows "lock_inv doc reqs (step doc cfg reqs s ev)"
proof -
  obtain c res where ev: "ev = (c, res)" by (cases ev)
  have "lock_inv doc reqs (step doc cfg reqs s (c, res))"
  proof (cases rule: step_cases [of doc cfg reqs s c res])
    case idle
    then show ?thesis using assms by simp
  next
    case (reject e)
    show ?thesis
      by (rule lock_inv_idle [OF assms, of c]) (simp_all add: reject)
  next
    case (wait el key p)
    show ?thesis
      by (rule lock_inv_idle [OF assms wait(2)]) (simp_all add: wait(4))
  next
    case (acquire el key)
    show ?thesis
      by (rule lock_inv_acquire [OF assms acquire(2) key_of_located [of doc reqs c, OF acquire(1)] acquire(3)])
         (simp_all add: acquire(4) acquireLock_free [OF acquire(3)])
  next
    case (load_started el key)
    show ?thesis
      by (rule lock_inv_progress [OF assms, of c]) (simp_all add: load_started)
  next
    case (failed el key e)
    show ?thesis
      by (rule lock_inv_release [OF assms failed(2) _ key_of_located [of doc reqs c, OF failed(1)]])
         (simp_all add: failed(3) finish_fields)
  next
    case (loaded el key html)
    show ?thesis
      by (rule lock_inv_progress [OF assms, of c]) (simp_all add: loaded afterLoad_fields)
  next
    case (faded_out el key h)
    show ?thesis
      by (rule lock_inv_progress [OF assms, of c]) (simp_all add: faded_out injectContent_fields)
  next
    case (injected el key)
    show ?thesis
      by (rule lock_inv_progress [OF assms, of c]) (simp_all add: injected afterInject_fields)
  next
    case (faded_in el key)
    show ?thesis
      by (rule lock_inv_progress [OF assms, of c])
         (simp_all add: faded_in initializeComponent_fields)
  next
    case (completed el key)
    show ?thesis
      by (rule lock_inv_release [OF assms _ _ key_of_located [of doc reqs c, OF completed(1)]])
         (simp_all add: completed finish_fields)
  qed
  then show ?thesis by (simp add: ev)
qed

lemma lock_inv_run:
  "lock_inv doc reqs s \<Longrightarrow> lock_inv doc reqs (run doc cfg reqs s evs)"
  unfolding run_def by (induction evs arbitrary: s) (simp_all add: lock_inv_step)


lemma closed_release_after:
  "closed a tr \<Longrightarrow> i < length tr \<Longrightarrow> fst (tr ! i) = a \<Longrightarrow>
   \<exists>m. i \<le> m \<and> m < length tr \<and> tr ! m = (a, Released)"
proof (induction tr rule: rev_induct)
  case Nil
  then show ?case by simp
next
  case (snoc x tr)
  show ?case
  proof (cases "fst x = a")
    case True
    then have "snd x = Released"
      using snoc.prems(1) by (simp add: closed_def)
    then have "(tr @ [x]) ! length tr = (a, Released)"
      using True by (cases x) simp
    then show ?thesis using snoc.prems(2) by (intro exI [of _ "length tr"]) simp
  next
    case False
    then have cl: "closed a tr" using snoc.prems(1) by (simp add: closed_def)
    have "i \<noteq> length tr" using False snoc.prems(3) by auto
    then have i: "i < length tr" using snoc.prems(2) by simp
    then have "fst (tr ! i) = a" using snoc.prems(3) by (simp add: nth_append)
    then obtain m where "i \<le> m" "m < length tr" "tr ! m = (a, Released)"
      using snoc.IH [OF cl i] by blast
    then show ?thesis by (intro exI [of _ m]) (simp add: nth_append)
  qed
qed

lemma closed_append_other:
  "\<forall>x \<in> set new. fst x \<noteq> a \<Longrightarrow> closed a (tr @ new) = closed a tr"
  by (simp add: closed_def)

lemma closed_append_released:
  "closed c (tr @ new @ [(c, Released)])"
  by (simp add: closed_def)

lemma afterLoad_trace:
  "trace (afterLoad cfg c r el key html s) =
     trace s @ (if \<not> appendMode r then [(c, HandlersCleaned)] else [])
             @ (if transition r \<and> \<not> appendMode r then [] else [(c, ContentInserted)])"
  by (simp add: afterLoad_def Let_def injectContent_fields cleanup_fields)

lemma afterInject_trace:
  "trace (afterInject c r key s) =
     trace s @ (c, ScriptsExecuted)
             # (if transition r \<and> \<not> appendMode r then [] else [(c, InitializerDispatched)])"
  by (simp add: afterInject_def Let_def initializeComponent_fields)

text \<open>What one step adds to the log.\<close>

lemma step_trace:
  assumes "lock_inv doc reqs s"
  shows "\<exists>new. trace (step doc cfg reqs s (c, res)) = trace s @ new \<and>
           (\<forall>x \<in> set new. fst x = c) \<and>
           (\<forall>x. x \<noteq> c \<longrightarrow> phases (step doc cfg reqs s (c, res)) x = phases s x) \<and>
           (new \<noteq> [] \<longrightarrow> (\<exists>k. key_of doc reqs c = Some k \<and>
               (\<forall>a. a \<noteq> c \<and> key_of doc reqs a = Some k \<longrightarrow> \<not> holding (phases s a)))) \<and>
           (\<not> holding (phases (step doc cfg reqs s (c, res)) c) \<longrightarrow>
               (new = [] \<and> \<not> holding (phases s c)) \<or> (new \<noteq> [] \<and> last new = (c, Released)))"
proof -
  have excl: "\<And>k. holding (phases s c) \<Longrightarrow> key_of doc reqs c = Some k \<Longrightarrow>
      \<forall>a. a \<noteq> c \<and> key_of doc reqs a = Some k \<longrightarrow> \<not> holding (phases s a)"
    using assms unfolding lock_inv_def by metis
  have free: "\<And>k. injectionLocks s k = None \<Longrightarrow>
      \<forall>a. a \<noteq> c \<and> key_of doc reqs a = Some k \<longrightarrow> \<not> holding (phases s a)"
    using assms unfolding lock_inv_def by fastforce
  show ?thesis
  proof (cases rule: step_cases [of doc cfg reqs s c res])
    case idle
    then show ?thesis by (intro exI [of _ "[]"]) auto
  next
    case (reject e)
    then show ?thesis by (intro exI [of _ "[]"]) auto
  next
    case (wait el key p)
    then show ?thesis by (intro exI [of _ "[]"]) auto
  next
    case (acquire el key)
    show ?thesis
      using free [OF acquire(3)] key_of_located [of doc reqs c, OF acquire(1)]
      by (intro exI [of _ "[(c, Acquired)]"]) (simp add: acquire(4) acquireLock_free [OF acquire(3)])
  next
    case (load_started el key)
    then show ?thesis by (intro exI [of _ "[]"]) auto
  next
    case (failed el key e)
    show ?thesis
      using excl [OF failed(2)] key_of_located [of doc reqs c, OF failed(1)]
      by (intro exI [of _ "[(c, Released)]"]) (simp add: failed(3) finish_fields)
  next
    case (loaded el key html)
    have h: "holding (phases s c)" using loaded(2) by simp
    obtain new where "trace (afterLoad cfg c (reqs c) el key html s) = trace s @ new"
      "\<forall>x \<in> set new. fst x = c"
      using afterLoad_trace [of cfg c "reqs c" el key html s] by auto
    then show ?thesis
      using excl [OF h] key_of_located [of doc reqs c, OF loaded(1)]
      by (intro exI [of _ new]) (simp add: loaded(3) afterLoad_fields)
  next
    case (faded_out el key h)
    have hc: "holding (phases s c)" using faded_out(2) by simp
    show ?thesis
      using excl [OF hc] key_of_located [of doc reqs c, OF faded_out(1)]
      by (intro exI [of _ "[(c, ContentInserted)]"]) (simp add: faded_out(3) injectContent_fields)
  next
    case (injected el key)
    have h: "holding (phases s c)" using injected(2) by simp
    obtain new where "trace (afterInject c (reqs c) key s) = trace s @ new"
      "\<forall>x \<in> set new. fst x = c"
      using afterInject_trace [of c "reqs c" key s] by auto
    then show ?thesis
      using excl [OF h] key_of_located [of doc reqs c, OF injected(1)]
      by (intro exI [of _ new]) (simp add: injected(3) afterInject_fields)
  next
    case (faded_in el key)
    have hc: "holding (phases s c)" using faded_in(2) by simp
    show ?thesis
      using excl [OF hc] key_of_located [of doc reqs c, OF faded_in(1)]
      by (intro exI [of _ "[(c, InitializerDispatched)]"])
         (simp add: faded_in(3) initializeComponent_fields)
  next
    case (completed el key)
    have hc: "holding (phases s c)" using completed(2) by simp
    show ?thesis
      using excl [OF hc] key_of_located [of doc reqs c, OF completed(1)]
      by (intro exI [of _ "[(c, Released)]"]) (simp add: completed(3) finish_fields)
  qed
qed

lemma trace_inv_step:
  assumes "trace_inv doc reqs s"
  shows "trace_inv doc reqs (step doc cfg reqs s ev)"
proof -
  obtain c res where ev: "ev = (c, res)" by (cases ev)
  let ?s' = "step doc cfg reqs s (c, res)"
  let ?K = "key_of doc reqs"
  have li: "lock_inv doc reqs s" and ex: "exclusive ?K (trace s)"
    and cl: "\<And>x. \<not> holding (phases s x) \<Longrightarrow> closed x (trace s)"
    using assms unfolding trace_inv_def by auto
  obtain new where tr: "trace ?s' = trace s @ new"
    and own: "\<forall>x \<in> set new. fst x = c"
    and others: "\<And>x. x \<noteq> c \<Longrightarrow> phases ?s' x = phases s x"
    and alone: "new \<noteq> [] \<Longrightarrow> \<exists>k. ?K c = Some k \<and>
                  (\<forall>a. a \<noteq> c \<and> ?K a = Some k \<longrightarrow> \<not> holding (phases s a))"
    and fin: "\<not> holding (phases ?s' c) \<Longrightarrow>
                  (new = [] \<and> \<not> holding (phases s c)) \<or> (new \<noteq> [] \<and> last new = (c, Released))"
    using step_trace [OF li, of cfg c res] by blast
  have 1: "lock_inv doc reqs ?s'" using li by (rule lock_inv_step)
  have 2: "closed x (trace ?s')" if nh: "\<not> holding (phases ?s' x)" for x
  proof (cases "x = c")
    case False
    then have "closed x (trace s)" using nh others cl by simp
    moreover have "\<forall>y \<in> set new. fst y \<noteq> x" using own False by auto
    ultimately show ?thesis unfolding tr by (simp add: closed_append_other)
  next
    case True
    show ?thesis
    proof (cases "new = []")
      case e: True
      then have "\<not> holding (phases s c)" using fin nh True by auto
      then show ?thesis using cl e True tr by simp
    next
      case False
      then have "last new = (c, Released)" using fin nh True by auto
      then have "new = butlast new @ [(c, Released)]"
        using False by (metis append_butlast_last_id)
      then have "trace ?s' = trace s @ butlast new @ [(c, Released)]" using tr by simp
      then show ?thesis using True closed_append_released by metis
    qed
  qed
  have 3: "exclusive ?K (trace ?s')"
    unfolding exclusive_def
  proof (intro allI impI)
    fix i j
    assume h: "i < j \<and> j < length (trace ?s') \<and> fst (trace ?s' ! i) \<noteq> fst (trace ?s' ! j) \<and>
      ?K (fst (trace ?s' ! i)) = ?K (fst (trace ?s' ! j)) \<and> snd (trace ?s' ! i) \<noteq> Released"
    have len: "length (trace ?s') = length (trace s) + length new" using tr by simp
    have hij: "i < j" and hj: "j < length (trace s) + length new" using h len by auto
    show "\<exists>m. i < m \<and> m < j \<and> trace ?s' ! m = (fst (trace ?s' ! i), Released)"
    proof (cases "j < length (trace s)")
      case True
      then have "trace ?s' ! i = trace s ! i" and "trace ?s' ! j = trace s ! j"
        using hij tr by (simp_all add: nth_append)
      then obtain m where m: "i < m" "m < j" "trace s ! m = (fst (trace s ! i), Released)"
        using ex h True unfolding exclusive_def by metis
      then have "trace ?s' ! m = (fst (trace ?s' ! i), Released)"
        using True hij tr by (simp add: nth_append)
      then show ?thesis using m by blast
    next
      case False
      then have "trace ?s' ! j = new ! (j - length (trace s))" and jn: "j - length (trace s) < length new"
        using hj tr by (simp_all add: nth_append)
      then have jc: "fst (trace ?s' ! j) = c" and ne: "new \<noteq> []"
        using own nth_mem [of "j - length (trace s)" new] by auto
      have il: "i < length (trace s)"
      proof (rule ccontr)
        assume "\<not> i < length (trace s)"
        then have "trace ?s' ! i = new ! (i - length (trace s))" and "i - length (trace s) < length new"
          using hij hj tr by (simp_all add: nth_append)
        then have "fst (trace ?s' ! i) = c"
          using own nth_mem [of "i - length (trace s)" new] by auto
        then show False using h jc by simp
      qed
      then have ti: "trace ?s' ! i = trace s ! i" using tr by (simp add: nth_append)
      let ?a = "fst (trace s ! i)"
      obtain k where k: "?K c = Some k"
        "\<forall>a. a \<noteq> c \<and> ?K a = Some k \<longrightarrow> \<not> holding (phases s a)"
        using alone [OF ne] by blast
      have "?a \<noteq> c" and "?K ?a = Some k" using h jc ti k(1) by auto
      then have "closed ?a (trace s)" using k(2) cl by blast
      then obtain m where m: "i \<le> m" "m < length (trace s)" "trace s ! m = (?a, Released)"
        using closed_release_after [OF _ il, of ?a] by blast
      have "snd (trace s ! i) \<noteq> Released" using h ti by simp
      then have "m \<noteq> i" using m(3) by (metis snd_conv)
      then have "i < m" using m(1) by simp
      moreover have "m < j" using m(2) False by simp
      moreover have "trace ?s' ! m = (fst (trace ?s' ! i), Released)"
        using m(2,3) ti tr by (simp add: nth_append)
      ultimately show ?thesis by blast
    qed
  qed
  show ?thesis using 1 2 3 unfolding trace_inv_def ev by blast
qed

lemma trace_inv_run:
  "trace_inv doc reqs s \<Longrightarrow> trace_inv doc reqs (run doc cfg reqs s evs)"
  unfolding run_def by (induction evs arbitrary: s) (simp_all add: trace_inv_step)

lemma trace_inv_new: "trace_inv doc reqs new_loader"
  by (simp add: trace_inv_def lock_inv_def exclusive_def closed_def new_loader_def)

lemma located_SomeD:
  "located doc r = Some (el, key) \<Longrightarrow>
   resolveTarget doc (target r) = Inr (Some el) \<and> getInstanceKey doc (componentName r) el = Some key"
  by (auto simp: located_def split: sum.splits option.splits)

lemma step_start:
  "phases s c = NotStarted \<Longrightarrow> located doc (reqs c) = Some (el, key) \<Longrightarrow>
   step doc cfg reqs s (c, res) = acquireLock c key s"
  by (simp add: step_def located_SomeD)

lemma step_resume:
  assumes "located doc (reqs c) = Some (el, key)"
  shows "phases s c = AwaitLock p \<Longrightarrow>
           step doc cfg reqs s (c, res) = (if p \<in> resolved s then acquireLock c key s else s)"
    and "phases s c = AwaitAcquire \<Longrightarrow>
           step doc cfg reqs s (c, res) = s\<lparr>phases := (phases s)(c := AwaitLoad)\<rparr>"
    and "phases s c = AwaitLoad \<Longrightarrow>
           step doc cfg reqs s (c, Inr html) = afterLoad cfg c (reqs c) el key html s"
    and "phases s c = AwaitTransitionOut h \<Longrightarrow>
           step doc cfg reqs s (c, Inr v) = injectContent cfg c (reqs c) el h s"
    and "phases s c = AwaitInject \<Longrightarrow>
           step doc cfg reqs s (c, Inr v) = afterInject c (reqs c) key s"
    and "phases s c = AwaitTransitionIn \<Longrightarrow>
           step doc cfg reqs s (c, Inr v) = initializeComponent c (reqs c) key s"
    and "phases s c = AwaitInit \<Longrightarrow>
           step doc cfg reqs s (c, Inr v) = finish c key (Inr el) s"
  using assms by (simp_all add: step_def)

lemma step_fail:
  assumes "located doc (reqs c) = Some (el, key)"
    and "holding (phases s c)" and "phases s c \<noteq> AwaitAcquire"
  shows "step doc cfg reqs s (c, Inl e) = finish c key (Inl e) s"
  using assms by (cases "phases s c") (simp_all add: step_def)

lemma step_finished:
  "phases s c = Finished r \<Longrightarrow> step doc cfg reqs s (c, res) = s"
  by (simp add: step_def)

lemma afterLoad_phase:
  "phases (afterLoad cfg c r el key html s) c =
     (if transition r \<and> \<not> appendMode r then AwaitTransitionOut (processTemplate html (data r))
      else AwaitInject)"
  by (simp add: afterLoad_def Let_def injectContent_fields cleanup_fields)

lemma afterInject_phase:
  "phases (afterInject c r key s) c =
     (if transition r \<and> \<not> appendMode r then AwaitTransitionIn else AwaitInit)"
  by (simp add: afterInject_def Let_def initializeComponent_fields)

text \<open>A call that finds its key free and is resumed seven times with success runs to its end.\<close>

lemma run_alone:
  fixes cfg :: config and html :: string
  assumes loc: "located doc (reqs c) = Some (el, key)"
    and ns: "phases s c = NotStarted" and free: "injectionLocks s key = None"
  defines "s' \<equiv> run doc cfg reqs s (replicate 7 (c, Inr html))"
  shows "phases s' c = Finished (Inr el)"
    and "\<And>x. x \<noteq> c \<Longrightarrow> phases s' x = phases s x"
    and "injectionLocks s' = injectionLocks s"
    and "\<exists>mid. trace s' = trace s @ (c, Acquired) # mid @ [(c, Released)]"
proof -
  let ?ev = "(c, Inr html)"
  let ?st = "step doc cfg reqs"
  define s1 where "s1 = acquireLock c key s"
  define s2 where "s2 = s1\<lparr>phases := (phases s1)(c := AwaitLoad)\<rparr>"
  define s3 where "s3 = afterLoad cfg c (reqs c) el key html s2"
  have e1: "?st s ?ev = s1" unfolding s1_def using ns loc by (simp add: step_start)
  have p1: "phases s1 c = AwaitAcquire" unfolding s1_def by (simp add: acquireLock_free [OF free])
  have e2: "?st s1 ?ev = s2" unfolding s2_def using p1 loc by (simp add: step_resume)
  have p2: "phases s2 c = AwaitLoad" unfolding s2_def by simp
  have e3: "?st s2 ?ev = s3" unfolding s3_def using p2 loc by (simp add: step_resume)
  have f2: "injectionLocks s2 = (injectionLocks s)(key \<mapsto> next_promise s)"
    "trace s2 = trace s @ [(c, Acquired)]" "\<And>x. x \<noteq> c \<Longrightarrow> phases s2 x = phases s x"
    unfolding s2_def s1_def by (simp_all add: acquireLock_free [OF free])
  have f3: "injectionLocks s3 = (injectionLocks s)(key \<mapsto> next_promise s)"
    "\<And>x. x \<noteq> c \<Longrightarrow> phases s3 x = phases s x"
    "\<exists>m. trace s3 = trace s @ (c, Acquired) # m"
    unfolding s3_def using f2 by (simp_all add: afterLoad_fields afterLoad_trace)
  have unlock: "(injectionLocks s)(key := None) = injectionLocks s" using free by auto
  have run7: "s' = ?st (?st (?st (?st s3 ?ev) ?ev) ?ev) ?ev"
    unfolding s'_def run_def by (simp add: numeral_eq_Suc e1 e2 e3)
  show "phases s' c = Finished (Inr el)"
    and "\<And>x. x \<noteq> c \<Longrightarrow> phases s' x = phases s x"
    and "injectionLocks s' = injectionLocks s"
    and "\<exists>mid. trace s' = trace s @ (c, Acquired) # mid @ [(c, Released)]"
  proof -
    consider (slow) "transition (reqs c) \<and> \<not> appendMode (reqs c)"
      | (fast) "\<not> (transition (reqs c) \<and> \<not> appendMode (reqs c))" by blast
    then have "phases s' c = Finished (Inr el) \<and> (\<forall>x. x \<noteq> c \<longrightarrow> phases s' x = phases s x) \<and>
       injectionLocks s' = injectionLocks s \<and>
       (\<exists>mid. trace s' = trace s @ (c, Acquired) # mid @ [(c, Released)])"
    proof cases
      case slow
      define s4 where "s4 = injectContent cfg c (reqs c) el (processTemplate html (data (reqs c))) s3"
      define s5 where "s5 = afterInject c (reqs c) key s4"
      define s6 where "s6 = initializeComponent c (reqs c) key s5"
      define s7 where "s7 = finish c key (Inr el) s6"
      have p3: "phases s3 c = AwaitTransitionOut (processTemplate html (data (reqs c)))"
        unfolding s3_def using slow by (simp add: afterLoad_phase)
      have e4: "?st s3 ?ev = s4" unfolding s4_def using p3 loc by (simp add: step_resume)
      have p4: "phases s4 c = AwaitInject" unfolding s4_def by (simp add: injectContent_fields)
      have e5: "?st s4 ?ev = s5" unfolding s5_def using p4 loc by (simp add: step_resume)
      have p5: "phases s5 c = AwaitTransitionIn" unfolding s5_def using slow by (simp add: afterInject_phase)
      have e6: "?st s5 ?ev = s6" unfolding s6_def using p5 loc by (simp add: step_resume)
      have p6: "phases s6 c = AwaitInit" unfolding s6_def by (simp add: initializeComponent_fields)
      have e7: "?st s6 ?ev = s7" unfolding s7_def using p6 loc by (simp add: step_resume)
      have s': "s' = s7" using run7 e4 e5 e6 e7 by simp
      obtain m where m: "trace s3 = trace s @ (c, Acquired) # m" using f3(3) by blast
      have "trace s7 = trace s @ (c, Acquired) # (m @ [(c, ContentInserted), (c, ScriptsExecuted), (c, InitializerDispatched)]) @ [(c, Released)]"
        unfolding s7_def s6_def s5_def s4_def using slow m
        by (simp add: finish_fields initializeComponent_fields afterInject_trace injectContent_fields)
      moreover have "injectionLocks s7 = injectionLocks s"
        unfolding s7_def s6_def s5_def s4_def using f3(1) unlock
        by (simp add: finish_fields initializeComponent_fields afterInject_fields injectContent_fields)
      moreover have "phases s7 c = Finished (Inr el)" unfolding s7_def by (simp add: finish_fields)
      moreover have "\<forall>x. x \<noteq> c \<longrightarrow> phases s7 x = phases s x"
        unfolding s7_def s6_def s5_def s4_def using f3(2)
        by (simp add: finish_fields initializeComponent_fields afterInject_fields injectContent_fields)
      ultimately show ?thesis unfolding s' by blast
    next
      case fast
      define s4 where "s4 = afterInject c (reqs c) key s3"
      define s5 where "s5 = finish c key (Inr el) s4"
      have p3: "phases s3 c = AwaitInject"
        unfolding s3_def using fast by (simp add: afterLoad_phase)
      have e4: "?st s3 ?ev = s4" unfolding s4_def using p3 loc by (simp add: step_resume)
      have p4: "phases s4 c = AwaitInit" unfolding s4_def using fast by (simp add: afterInject_phase)
      have e5: "?st s4 ?ev = s5" unfolding s5_def using p4 loc by (simp add: step_resume)
      have p5: "phases s5 c = Finished (Inr el)" unfolding s5_def by (simp add: finish_fields)
      have e6: "?st s5 ?ev = s5" using p5 by (simp add: step_finished)
      have s': "s' = s5" using run7 e4 e5 e6 by simp
      obtain m where m: "trace s3 = trace s @ (c, Acquired) # m" using f3(3) by blast
      have "trace s5 = trace s @ (c, Acquired) # (m @ [(c, ScriptsExecuted), (c, InitializerDispatched)]) @ [(c, Released)]"
        unfolding s5_def s4_def using fast m
        by (simp add: finish_fields afterInject_trace)
      moreover have "injectionLocks s5 = injectionLocks s"
        unfolding s5_def s4_def using f3(1) unlock
        by (simp add: finish_fields afterInject_fields)
      moreover have "\<forall>x. x \<noteq> c \<longrightarrow> phases s5 x = phases s x"
        unfolding s5_def s4_def using f3(2)
        by (simp add: finish_fields afterInject_fields)
      ultimately show ?thesis unfolding s' using p5 by blast
    qed
    then show "phases s' c = Finished (Inr el)"
      and "\<And>x. x \<noteq> c \<Longrightarrow> phases s' x = phases s x"
      and "injectionLocks s' = injectionLocks s"
      and "\<exists>mid. trace s' = trace s @ (c, Acquired) # mid @ [(c, Released)]"
      by blast+
  qed
qed

lemma run_Nil [simp]: "run doc cfg reqs s [] = s"
  by (simp add: run_def)

lemma run_Cons [simp]: "run doc cfg reqs s (ev # evs) = run doc cfg reqs (step doc cfg reqs s ev) evs"
  by (simp add: run_def)

lemma run_append: "run doc cfg reqs s (xs @ ys) = run doc cfg reqs (run doc cfg reqs s xs) ys"
  by (simp add: run_def)

lemma either_order:
  assumes "located doc (reqs c) = Some (el, k)" and "located doc (reqs c') = Some (el', k')"
    and "k \<noteq> k'" and "c \<noteq> c'"
  shows "\<exists>evs. hd (trace (run doc cfg reqs new_loader evs)) = (c', Acquired) \<and>
               last (trace (run doc cfg reqs new_loader evs)) = (c, Released) \<and>
               phases (run doc cfg reqs new_loader evs) c = Finished (Inr el) \<and>
               holding (phases (run doc cfg reqs new_loader evs) c')"
proof -
  define s1 where "s1 = step doc cfg reqs new_loader (c', Inr [])"
  have free': "injectionLocks new_loader k' = None" by (simp add: new_loader_def)
  have "s1 = acquireLock c' k' new_loader"
    unfolding s1_def using assms(2) by (simp add: step_start new_loader_def)
  then have s1: "phases s1 = (phases new_loader)(c' := AwaitAcquire)"
    "injectionLocks s1 = (injectionLocks new_loader)(k' \<mapsto> next_promise new_loader)"
    "trace s1 = [(c', Acquired)]"
    using acquireLock_free [OF free', of c'] by (simp_all add: new_loader_def)
  have ns: "phases s1 c = NotStarted" using s1(1) assms(4) by (simp add: new_loader_def)
  have free: "injectionLocks s1 k = None" using s1(2) assms(3) by (simp add: new_loader_def)
  let ?evs = "(c', Inr []) # replicate 7 (c, Inr [])"
  have r: "run doc cfg reqs new_loader ?evs = run doc cfg reqs s1 (replicate 7 (c, Inr []))"
    by (simp add: s1_def)
  obtain mid where mid: "trace (run doc cfg reqs s1 (replicate 7 (c, Inr []))) =
      trace s1 @ (c, Acquired) # mid @ [(c, Released)]"
    using run_alone(4) [where reqs=reqs and c=c, OF assms(1) ns free] by blast
  have "hd (trace (run doc cfg reqs new_loader ?evs)) = (c', Acquired)"
    unfolding r mid s1(3) by simp
  moreover have "last (trace (run doc cfg reqs new_loader ?evs)) = (c, Released)"
    unfolding r mid s1(3) by simp
  moreover have "phases (run doc cfg reqs new_loader ?evs) c = Finished (Inr el)"
    unfolding r by (rule run_alone(1) [where reqs=reqs and c=c, OF assms(1) ns free])
  moreover have "holding (phases (run doc cfg reqs new_loader ?evs) c')"
    unfolding r using run_alone(2) [where reqs=reqs and c=c and x=c', OF assms(1) ns free] assms(4) s1(1) by simp
  ultimately show ?thesis by blast
qed

lemma sample_keys:
  "located sample_doc (sample_reqs 0) = Some (1, ''nav:header'')"
  "located sample_doc (sample_reqs 1) = Some (1, ''nav:header'')"
  "located sample_doc (sample_reqs 2) = Some (3, ''footer:_anonymous_1-0'')"
  by code_simp+

lemma queued_trace:
  "trace (run sample_doc sample_cfg sample_reqs new_loader queued_schedule) =
     [(0, Acquired), (0, HandlersCleaned), (0, ContentInserted), (0, ScriptsExecuted),
      (0, InitializerDispatched), (0, Released), (1, Acquired)]"
  by code_simp

text \<open>
  A call that awaits a lock promise which is not resolved and whose resolver is not the
  one stored in the loader never moves again.
\<close>

lemma blocked_step:
  assumes "phases s c = AwaitLock p" and "p \<notin> resolved s" and "currentReleaseLock s \<noteq> Some p"
    and "p < next_promise s"
  shows "phases (step doc cfg reqs s ev) c = AwaitLock p \<and> p \<notin> resolved (step doc cfg reqs s ev) \<and>
         currentReleaseLock (step doc cfg reqs s ev) \<noteq> Some p \<and>
         p < next_promise (step doc cfg reqs s ev)"
proof -
  obtain c0 res where ev: "ev = (c0, res)" by (cases ev)
  have rel: "(case currentReleaseLock s of Some q \<Rightarrow> insert q (resolved s) | None \<Rightarrow> resolved s) = R
      \<Longrightarrow> p \<notin> R" for R
    using assms(2,3) by (auto split: option.splits)
  have "phases (step doc cfg reqs s (c0, res)) c = AwaitLock p \<and>
        p \<notin> resolved (step doc cfg reqs s (c0, res)) \<and>
        currentReleaseLock (step doc cfg reqs s (c0, res)) \<noteq> Some p \<and>
        p < next_promise (step doc cfg reqs s (c0, res))"
  proof (cases rule: step_cases [of doc cfg reqs s c0 res])
    case idle
    then show ?thesis using assms by simp
  next
    case (reject e)
    then show ?thesis using assms by auto
  next
    case (wait el key q)
    show ?thesis
    proof (cases "c0 = c")
      case False
      then show ?thesis using wait assms by simp
    next
      case True
      then have "step doc cfg reqs s (c0, res) = s"
        using assms(1,2) wait(1) by (simp add: step_resume)
      then show ?thesis using assms by simp
    qed
  next
    case (acquire el key)
    show ?thesis
    proof (cases "c0 = c")
      case False
      then show ?thesis using acquire(4) assms acquireLock_free [OF acquire(3), of c0] by simp
    next
      case True
      then have "step doc cfg reqs s (c0, res) = s"
        using assms(1,2) acquire(1) by (simp add: step_resume)
      then show ?thesis using assms by simp
    qed
  next
    case (load_started el key)
    then show ?thesis using assms by auto
  next
    case (failed el key e)
    then show ?thesis using assms rel by (auto simp: finish_fields)
  next
    case (loaded el key html)
    have "c \<noteq> c0" using loaded(2) assms(1) by auto
    then show ?thesis using loaded(3) assms by (simp add: afterLoad_fields)
  next
    case (faded_out el key h)
    then show ?thesis using assms by (auto simp: injectContent_fields)
  next
    case (injected el key)
    have "c \<noteq> c0" using injected(2) assms(1) by auto
    then show ?thesis using injected(3) assms by (simp add: afterInject_fields)
  next
    case (faded_in el key)
    then show ?thesis using assms by (auto simp: initializeComponent_fields)
  next
    case (completed el key)
    then show ?thesis using assms rel by (auto simp: finish_fields)
  qed
  then show ?thesis by (simp add: ev)
qed

lemma blocked_forever:
  assumes "phases s c = AwaitLock p" and "p \<notin> resolved s" and "currentReleaseLock s \<noteq> Some p"
    and "p < next_promise s"
  shows "phases (run doc cfg reqs s evs) c = AwaitLock p"
  using assms
proof (induction evs arbitrary: s)
  case Nil
  then show ?case by simp
next
  case (Cons ev evs)
  show ?case
    using blocked_step [OF Cons.prems, of doc cfg reqs ev] Cons.IH by simp
qed

lemma lost_wakeup_state:
  "phases (run sample_doc sample_cfg sample_reqs new_loader lost_wakeup_schedule) 0 = Finished (Inr 1)"
  "phases (run sample_doc sample_cfg sample_reqs new_loader lost_wakeup_schedule) 1 = AwaitLock 0"
  "phases (run sample_doc sample_cfg sample_reqs new_loader lost_wakeup_schedule) 2 = Finished (Inl RetrievalError)"
  "injectionLocks (run sample_doc sample_cfg sample_reqs new_loader lost_wakeup_schedule) ''nav:header'' = None"
  "0 \<notin> resolved (run sample_doc sample_cfg sample_reqs new_loader lost_wakeup_schedule)"
  "currentReleaseLock (run sample_doc sample_cfg sample_reqs new_loader lost_wakeup_schedule) = None"
  "next_promise (run sample_doc sample_cfg sample_reqs new_loader lost_wakeup_schedule) = 2"
  by code_simp+





lemma cleanup_handlers:
  "eventHandlers (cleanupEventListeners k s) = (eventHandlers s)(k := None)"
  "listeners (cleanupEventListeners k s) = listeners s - set (tracked s k)"
  by (auto simp: cleanupEventListeners_def tracked_def split: option.splits)

lemma cleanup_tracked:
  "tracked (cleanupEventListeners k s) k = []"
  "k' \<noteq> k \<Longrightarrow> tracked (cleanupEventListeners k s) k' = tracked s k'"
  by (simp_all add: tracked_def cleanup_handlers)




lemma tracked_cong: "eventHandlers s' key = eventHandlers s key \<Longrightarrow> tracked s' key = tracked s key"
  by (simp add: tracked_def)










subsection \<open>Injections for one key are serialised\<close>

text \<open>
  Claim C1. From a new loader and under every schedule of starts and resumptions: two
  different calls with the same instance key never both hold the lock (a call holds
  it from its acquisition to its end, and all its effects happen in between); in the
  log of effects, when a call has an effect and a different call with the same key has
  an effect later, the first call has released its lock in between; and for two calls
  with different keys there is a schedule in which the second acquires first and the
  first runs to its end while the second is still in progress, so calls for different
  keys interleave and complete in either order.
\<close>

theorem injections_serialised:
  "(\<forall>c c'. c \<noteq> c' \<and> key_of doc reqs c = key_of doc reqs c' \<longrightarrow>
       \<not> (holding (phases (run doc cfg reqs new_loader evs) c) \<and>
          holding (phases (run doc cfg reqs new_loader evs) c'))) \<and>
   exclusive (key_of doc reqs) (trace (run doc cfg reqs new_loader evs)) \<and>
   (\<forall>c c' el k el' k'. c \<noteq> c' \<and> located doc (reqs c) = Some (el, k) \<and>
       located doc (reqs c') = Some (el', k') \<and> k \<noteq> k' \<longrightarrow>
       (\<exists>evs'. hd (trace (run doc cfg reqs new_loader evs')) = (c', Acquired) \<and>
                last (trace (run doc cfg reqs new_loader evs')) = (c, Released) \<and>
                phases (run doc cfg reqs new_loader evs') c = Finished (Inr el) \<and>
                holding (phases (run doc cfg reqs new_loader evs') c')))"
proof -
  have inv: "trace_inv doc reqs (run doc cfg reqs new_loader evs)"
    by (rule trace_inv_run [OF trace_inv_new])
  then have "lock_inv doc reqs (run doc cfg reqs new_loader evs)"
    by (simp add: trace_inv_def)
  then have 1: "\<forall>c c'. c \<noteq> c' \<and> key_of doc reqs c = key_of doc reqs c' \<longrightarrow>
       \<not> (holding (phases (run doc cfg reqs new_loader evs) c) \<and>
          holding (phases (run doc cfg reqs new_loader evs) c'))"
    unfolding lock_inv_def by blast
  have 2: "exclusive (key_of doc reqs) (trace (run doc cfg reqs new_loader evs))"
    using inv by (simp add: trace_inv_def)
  show ?thesis using 1 2 either_order [where reqs=reqs and doc=doc and cfg=cfg] by blast
qed

text \<open>
  The theorem on the sample page: the calls 0 and 1 have the same key, call 1 acquires
  only after call 0 has released; the calls 0 and 2 have different keys.
\<close>

theorem injections_serialised_witness:
  "key_of sample_doc sample_reqs 0 = key_of sample_doc sample_reqs 1 \<and>
   trace (run sample_doc sample_cfg sample_reqs new_loader queued_schedule) =
     [(0, Acquired), (0, HandlersCleaned), (0, ContentInserted), (0, ScriptsExecuted),
      (0, InitializerDispatched), (0, Released), (1, Acquired)] \<and>
   \<not> (holding (phases (run sample_doc sample_cfg sample_reqs new_loader queued_schedule) 0) \<and>
      holding (phases (run sample_doc sample_cfg sample_reqs new_loader queued_schedule) 1)) \<and>
   exclusive (key_of sample_doc sample_reqs)
     (trace (run sample_doc sample_cfg sample_reqs new_loader queued_schedule)) \<and>
   (\<exists>evs'. hd (trace (run sample_doc sample_cfg sample_reqs new_loader evs')) = (2, Acquired) \<and>
            last (trace (run sample_doc sample_cfg sample_reqs new_loader evs')) = (0, Released) \<and>
            phases (run sample_doc sample_cfg sample_reqs new_loader evs') 0 = Finished (Inr 1) \<and>
            holding (phases (run sample_doc sample_cfg sample_reqs new_loader evs') 2))"
proof -
  let ?s = "run sample_doc sample_cfg sample_reqs new_loader queued_schedule"
  have keys: "key_of sample_doc sample_reqs 0 = key_of sample_doc sample_reqs 1"
    unfolding key_of_def sample_keys by simp
  have 1: "\<not> (holding (phases ?s 0) \<and> holding (phases ?s 1))"
  proof -
    have "(0::nat) \<noteq> 1 \<and> key_of sample_doc sample_reqs 0 = key_of sample_doc sample_reqs 1"
      using keys by simp
    then show ?thesis
      by (rule injections_serialised [of sample_doc sample_reqs sample_cfg queued_schedule,
            THEN conjunct1, rule_format])
  qed
  have 2: "exclusive (key_of sample_doc sample_reqs) (trace ?s)"
    by (rule injections_serialised [of sample_doc sample_reqs sample_cfg queued_schedule,
          THEN conjunct2, THEN conjunct1])
  have 3: "\<exists>evs'. hd (trace (run sample_doc sample_cfg sample_reqs new_loader evs')) = (2, Acquired) \<and>
            last (trace (run sample_doc sample_cfg sample_reqs new_loader evs')) = (0, Released) \<and>
            phases (run sample_doc sample_cfg sample_reqs new_loader evs') 0 = Finished (Inr 1) \<and>
            holding (phases (run sample_doc sample_cfg sample_reqs new_loader evs') 2)"
  proof -
    have "(0::nat) \<noteq> 2 \<and> located sample_doc (sample_reqs 0) = Some (1, ''nav:header'') \<and>
          located sample_doc (sample_reqs 2) = Some (3, ''footer:_anonymous_1-0'') \<and>
          ''nav:header'' \<noteq> ''footer:_anonymous_1-0''"
      using sample_keys(1,3) by simp
    then show ?thesis
      by (rule injections_serialised [of sample_doc sample_reqs sample_cfg queued_schedule,
            THEN conjunct2, THEN conjunct2, rule_format])
  qed
  show ?thesis using keys 1 2 3 queued_trace by blast
qed

subsection \<open>A release that resolves the wrong promise\<close>

text \<open>
  Claim C3 at the schedule \<open>lost_wakeup_schedule\<close>: call 0 acquires the key
  \<open>nav:header\<close>, call 1 queues behind it, call 2 acquires another key; the load of
  call 2 fails and its release resolves the promise made last (its own) and clears the
  one stored resolver; call 0 then runs to its end, and its release finds no resolver.
  Both calls have ended and the key \<open>nav:header\<close> is deleted from the registry, but
  the promise that call 1 awaits is not resolved, and under every further schedule
  call 1 stays suspended at it.
\<close>

theorem lost_wakeup:
  "phases (run sample_doc sample_cfg sample_reqs new_loader lost_wakeup_schedule) 0 = Finished (Inr 1) \<and>
   phases (run sample_doc sample_cfg sample_reqs new_loader lost_wakeup_schedule) 2 = Finished (Inl RetrievalError) \<and>
   injectionLocks (run sample_doc sample_cfg sample_reqs new_loader lost_wakeup_schedule) ''nav:header'' = None \<and>
   0 \<notin> resolved (run sample_doc sample_cfg sample_reqs new_loader lost_wakeup_schedule) \<and>
   phases (run sample_doc sample_cfg sample_reqs
             (run sample_doc sample_cfg sample_reqs new_loader lost_wakeup_schedule) evs) 1 = AwaitLock 0"
proof -
  let ?s = "run sample_doc sample_cfg sample_reqs new_loader lost_wakeup_schedule"
  have a: "currentReleaseLock ?s \<noteq> Some 0" by (simp add: lost_wakeup_state(6))
  have b: "0 < next_promise ?s" by (simp add: lost_wakeup_state(7))
  have "phases (run sample_doc sample_cfg sample_reqs ?s evs) 1 = AwaitLock 0"
    by (rule blocked_forever [OF lost_wakeup_state(2) lost_wakeup_state(5) a b])
  then show ?thesis
    using lost_wakeup_state(1,3,4,5) by blast
qed

subsection \<open>A replacing injection starts from an empty handler record\<close>




subsection \<open>Target resolution and the failure before the lock\<close>





subsection \<open>The lock registry\<close>

text \<open>A key is registered in \<open>_injectionLocks\<close> only while some call holds the lock of
  that key, and a holder that fails removes its key in the same step (the \<open>finally\<close>
  block of \<open>injectComponent\<close>).\<close>
lemma registry_inv_same:
  assumes "registry_inv doc reqs s" and "injectionLocks s' = injectionLocks s"
    and "\<And>x. holding (phases s x) \<Longrightarrow> holding (phases s' x)"
  shows "registry_inv doc reqs s'"
  using assms unfolding registry_inv_def by metis

lemma registry_inv_acquire:
  assumes "registry_inv doc reqs s" and "key_of doc reqs c = Some k"
    and "injectionLocks s' = (injectionLocks s)(k \<mapsto> p)"
    and "holding (phases s' c)"
    and "\<And>x. x \<noteq> c \<Longrightarrow> phases s' x = phases s x" and "\<not> holding (phases s c)"
  shows "registry_inv doc reqs s'"
  unfolding registry_inv_def
proof (intro allI impI)
  fix k'
  assume r: "injectionLocks s' k' \<noteq> None"
  show "\<exists>a. holding (phases s' a) \<and> key_of doc reqs a = Some k'"
  proof (cases "k' = k")
    case True
    then show ?thesis using assms(2,4) by blast
  next
    case False
    then have "injectionLocks s k' \<noteq> None" using r assms(3) by simp
    then obtain a where a: "holding (phases s a)" "key_of doc reqs a = Some k'"
      using assms(1) unfolding registry_inv_def by blast
    then have "a \<noteq> c" using assms(6) by auto
    then show ?thesis using a assms(5) by (intro exI [of _ a]) simp
  qed
qed

lemma registry_inv_release:
  assumes "registry_inv doc reqs s" and "key_of doc reqs c = Some k"
    and "injectionLocks s' = (injectionLocks s)(k := None)"
    and "\<And>x. x \<noteq> c \<Longrightarrow> phases s' x = phases s x"
  shows "registry_inv doc reqs s'"
  unfolding registry_inv_def
proof (intro allI impI)
  fix k'
  assume r: "injectionLocks s' k' \<noteq> None"
  then have kk: "k' \<noteq> k" and "injectionLocks s k' \<noteq> None"
    using assms(3) by (auto split: if_splits)
  then obtain a where a: "holding (phases s a)" "key_of doc reqs a = Some k'"
    using assms(1) unfolding registry_inv_def by blast
  then have "a \<noteq> c" using assms(2) kk by auto
  then show "\<exists>a. holding (phases s' a) \<and> key_of doc reqs a = Some k'"
    using a assms(4) by (intro exI [of _ a]) simp
qed

lemma registry_inv_step:
  assumes inv: "registry_inv doc reqs s"
  shows "registry_inv doc reqs (step doc cfg reqs s ev)"
proof -
  obtain c res where ev: "ev = (c, res)" by (cases ev)
  have keep: "holding (phases s' x)"
    if "holding (phases s x)" and "\<And>y. y \<noteq> c \<Longrightarrow> phases s' y = phases s y"
      and "holding (phases s c) \<Longrightarrow> holding (phases s' c)" for s' x
    using that by (cases "x = c") simp_all
  have "registry_inv doc reqs (step doc cfg reqs s (c, res))"
  proof (cases rule: step_cases [of doc cfg reqs s c res])
    case idle
    then show ?thesis using inv by simp
  next
    case (reject e)
    show ?thesis
      by (rule registry_inv_same [OF inv]) (auto simp: reject intro: keep)
  next
    case (wait el key p)
    show ?thesis
      by (rule registry_inv_same [OF inv]) (auto simp: wait(2,4) intro: keep)
  next
    case (acquire el key)
    show ?thesis
      by (rule registry_inv_acquire [OF inv key_of_located [of doc reqs c, OF acquire(1)]])
         (simp_all add: acquire(2,4) acquireLock_free [OF acquire(3)])
  next
    case (load_started el key)
    show ?thesis
      by (rule registry_inv_same [OF inv]) (auto simp: load_started(3))
  next
    case (failed el key e)
    show ?thesis
      by (rule registry_inv_release [OF inv key_of_located [of doc reqs c, OF failed(1)]])
         (simp_all add: failed(3) finish_fields)
  next
    case (loaded el key html)
    show ?thesis
      by (rule registry_inv_same [OF inv])
         (auto simp: loaded(3) afterLoad_fields intro: keep)
  next
    case (faded_out el key h)
    show ?thesis
      by (rule registry_inv_same [OF inv]) (auto simp: faded_out(3) injectContent_fields)
  next
    case (injected el key)
    show ?thesis
      by (rule registry_inv_same [OF inv])
         (auto simp: injected(3) afterInject_fields intro: keep)
  next
    case (faded_in el key)
    show ?thesis
      by (rule registry_inv_same [OF inv]) (auto simp: faded_in(3) initializeComponent_fields)
  next
    case (completed el key)
    show ?thesis
      by (rule registry_inv_release [OF inv key_of_located [of doc reqs c, OF completed(1)]])
         (simp_all add: completed(3) finish_fields)
  qed
  then show ?thesis by (simp add: ev)
qed

lemma registry_inv_run:
  "registry_inv doc reqs s \<Longrightarrow> registry_inv doc reqs (run doc cfg reqs s evs)"
  by (induction evs arbitrary: s) (simp_all add: registry_inv_step)

lemma registry_inv_new: "registry_inv doc reqs new_loader"
  by (simp add: registry_inv_def new_loader_def)

lemma registry_released:
  "(\<forall>k. injectionLocks (run doc cfg reqs new_loader evs) k \<noteq> None \<longrightarrow>
       (\<exists>c. holding (phases (run doc cfg reqs new_loader evs) c) \<and> key_of doc reqs c = Some k)) \<and>
   (\<forall>c el key. located doc (reqs c) = Some (el, key) \<and> holding (phases s c) \<and>
       phases s c \<noteq> AwaitAcquire \<longrightarrow>
       injectionLocks (step doc cfg reqs s (c, Inl e)) key = None \<and>
       phases (step doc cfg reqs s (c, Inl e)) c = Finished (Inl e))"
proof -
  have "registry_inv doc reqs (run doc cfg reqs new_loader evs)"
    by (rule registry_inv_run [OF registry_inv_new])
  then have 1: "\<forall>k. injectionLocks (run doc cfg reqs new_loader evs) k \<noteq> None \<longrightarrow>
       (\<exists>c. holding (phases (run doc cfg reqs new_loader evs) c) \<and> key_of doc reqs c = Some k)"
    unfolding registry_inv_def .
  have 2: "injectionLocks (step doc cfg reqs s (c, Inl e)) key = None \<and>
       phases (step doc cfg reqs s (c, Inl e)) c = Finished (Inl e)"
    if "located doc (reqs c) = Some (el, key) \<and> holding (phases s c) \<and> phases s c \<noteq> AwaitAcquire"
    for c el key
    using that step_fail [of doc reqs c el key s cfg e] by (simp add: finish_fields)
  show ?thesis using 1 2 by blast
qed

lemma queued_registry:
  "injectionLocks (run sample_doc sample_cfg sample_reqs new_loader queued_schedule) ''nav:header'' = Some 1"
  by code_simp

lemma registry_example:
  "injectionLocks (run sample_doc sample_cfg sample_reqs new_loader queued_schedule) ''nav:header'' = Some 1 \<and>
   (\<exists>c. holding (phases (run sample_doc sample_cfg sample_reqs new_loader queued_schedule) c) \<and>
        key_of sample_doc sample_reqs c = Some ''nav:header'')"
proof -
  have "injectionLocks (run sample_doc sample_cfg sample_reqs new_loader queued_schedule) ''nav:header'' \<noteq> None"
    using queued_registry by simp
  then show ?thesis
    using registry_released [where doc=sample_doc and reqs=sample_reqs and cfg=sample_cfg
        and evs=queued_schedule, THEN conjunct1, rule_format, of "''nav:header''"] queued_registry
    by blast
qed

section \<open>Properties of the fragment store\<close>

lemma store_inv_parts:
  assumes "store_inv s"
  shows "\<And>c n p. callers s c = Some (Owner n p) \<Longrightarrow> loadingStates s n = Some p"
    and "\<And>n p. loadingStates s n = Some p \<Longrightarrow> p < next_fetch s"
    and "\<And>n p. loadingStates s n = Some p \<Longrightarrow> \<exists>c. callers s c = Some (Owner n p)"
    and "\<And>c c' n n' p. callers s c = Some (Owner n p) \<Longrightarrow> callers s c' = Some (Owner n' p) \<Longrightarrow> c = c'"
    and "\<And>c p r. callers s c = Some (Returned p r) \<Longrightarrow> settled s p = Some r"
    and "\<And>p r. settled s p = Some r \<Longrightarrow> p < next_fetch s"
    and "\<And>n. length (filter (\<lambda>x. fst x = n) (fetches s)) =
            length (filter (\<lambda>m. m = n) (deletions s)) + (if loadingStates s n = None then 0 else 1)"
  using assms unfolding store_inv_def by blast+

lemma store_inv_passive:
  assumes "store_inv s" and "callers s c = None" and "\<And>n p. st \<noteq> Owner n p"
    and "\<And>p r. st = Returned p r \<Longrightarrow> settled s p = Some r"
  shows "store_inv (s\<lparr>callers := (callers s)(c \<mapsto> st)\<rparr>)"
  unfolding store_inv_def
proof (intro conjI allI impI)
  fix a n p
  assume "callers (s\<lparr>callers := (callers s)(c \<mapsto> st)\<rparr>) a = Some (Owner n p)"
  then have "callers s a = Some (Owner n p)" using assms(3) by (auto split: if_splits)
  then show "loadingStates (s\<lparr>callers := (callers s)(c \<mapsto> st)\<rparr>) n = Some p"
    using store_inv_parts(1) [OF assms(1)] by simp
next
  fix n p
  assume "loadingStates (s\<lparr>callers := (callers s)(c \<mapsto> st)\<rparr>) n = Some p"
  then show "p < next_fetch (s\<lparr>callers := (callers s)(c \<mapsto> st)\<rparr>)"
    using store_inv_parts(2) [OF assms(1)] by simp
next
  fix n p
  assume "loadingStates (s\<lparr>callers := (callers s)(c \<mapsto> st)\<rparr>) n = Some p"
  then have l: "loadingStates s n = Some p" by simp
  then obtain a where a: "callers s a = Some (Owner n p)"
    using store_inv_parts(3) [OF assms(1)] by blast
  then have "a \<noteq> c" using assms(2) by auto
  then have "callers (s\<lparr>callers := (callers s)(c \<mapsto> st)\<rparr>) a = Some (Owner n p)"
    using a by simp
  then show "\<exists>a. callers (s\<lparr>callers := (callers s)(c \<mapsto> st)\<rparr>) a = Some (Owner n p)"
    by blast
next
  fix a a' n n' p
  assume "callers (s\<lparr>callers := (callers s)(c \<mapsto> st)\<rparr>) a = Some (Owner n p) \<and>
          callers (s\<lparr>callers := (callers s)(c \<mapsto> st)\<rparr>) a' = Some (Owner n' p)"
  then have "callers s a = Some (Owner n p)" and "callers s a' = Some (Owner n' p)"
    using assms(3) by (auto split: if_splits)
  then show "a = a'" using store_inv_parts(4) [OF assms(1)] by blast
next
  fix a p r
  assume "callers (s\<lparr>callers := (callers s)(c \<mapsto> st)\<rparr>) a = Some (Returned p r)"
  then have "settled s p = Some r"
    using assms(4) store_inv_parts(5) [OF assms(1)] by (auto split: if_splits)
  then show "settled (s\<lparr>callers := (callers s)(c \<mapsto> st)\<rparr>) p = Some r" by simp
next
  fix p r
  assume "settled (s\<lparr>callers := (callers s)(c \<mapsto> st)\<rparr>) p = Some r"
  then show "p < next_fetch (s\<lparr>callers := (callers s)(c \<mapsto> st)\<rparr>)"
    using store_inv_parts(6) [OF assms(1)] by simp
next
  fix n
  show "length (filter (\<lambda>x. fst x = n) (fetches (s\<lparr>callers := (callers s)(c \<mapsto> st)\<rparr>))) =
        length (filter (\<lambda>m. m = n) (deletions (s\<lparr>callers := (callers s)(c \<mapsto> st)\<rparr>))) +
        (if loadingStates (s\<lparr>callers := (callers s)(c \<mapsto> st)\<rparr>) n = None then 0 else 1)"
    using store_inv_parts(7) [OF assms(1), of n] by simp
qed

lemma store_inv_fetch:
  assumes inv: "store_inv s" and fresh: "callers s c = None" and free: "loadingStates s n = None"
  defines "s' \<equiv> s\<lparr>fetches := fetches s @ [(n, next_fetch s)],
                  loadingStates := (loadingStates s)(n \<mapsto> next_fetch s),
                  next_fetch := Suc (next_fetch s),
                  callers := (callers s)(c \<mapsto> Owner n (next_fetch s))\<rparr>"
  shows "store_inv s'"
  unfolding store_inv_def
proof (intro conjI allI impI)
  fix a m p
  assume a: "callers s' a = Some (Owner m p)"
  show "loadingStates s' m = Some p"
  proof (cases "a = c")
    case True
    then show ?thesis using a by (simp add: s'_def)
  next
    case False
    then have o: "callers s a = Some (Owner m p)" using a by (simp add: s'_def)
    then have l: "loadingStates s m = Some p" using store_inv_parts(1) [OF inv] by blast
    then have "m \<noteq> n" using free by auto
    then show ?thesis using l by (simp add: s'_def)
  qed
next
  fix m p
  assume l: "loadingStates s' m = Some p"
  show "p < next_fetch s'"
  proof (cases "m = n")
    case True
    then show ?thesis using l by (simp add: s'_def)
  next
    case False
    then have "loadingStates s m = Some p" using l by (simp add: s'_def)
    then show ?thesis using store_inv_parts(2) [OF inv] by (simp add: s'_def less_Suc_eq)
  qed
next
  fix m p
  assume l: "loadingStates s' m = Some p"
  show "\<exists>a. callers s' a = Some (Owner m p)"
  proof (cases "m = n")
    case True
    then have "p = next_fetch s" using l by (simp add: s'_def)
    then have "callers s' c = Some (Owner m p)" using True by (simp add: s'_def)
    then show ?thesis by blast
  next
    case False
    then have l0: "loadingStates s m = Some p" using l by (simp add: s'_def)
    then obtain a where a: "callers s a = Some (Owner m p)"
      using store_inv_parts(3) [OF inv] by blast
    then have "a \<noteq> c" using fresh by auto
    then have "callers s' a = Some (Owner m p)" using a by (simp add: s'_def)
    then show ?thesis by blast
  qed
next
  fix a a' m m' p
  assume h: "callers s' a = Some (Owner m p) \<and> callers s' a' = Some (Owner m' p)"
  have old: "callers s x = Some (Owner k q) \<Longrightarrow> q < next_fetch s" for x k q
    using store_inv_parts(1,2) [OF inv] by blast
  show "a = a'"
  proof (cases "a = c")
    case ac: True
    then have p: "p = next_fetch s" using h by (simp add: s'_def)
    show ?thesis
    proof (cases "a' = c")
      case True
      then show ?thesis using ac by simp
    next
      case False
      then have "callers s a' = Some (Owner m' p)" using h by (simp add: s'_def)
      then show ?thesis using old p by blast
    qed
  next
    case ac: False
    then have o: "callers s a = Some (Owner m p)" using h by (simp add: s'_def)
    show ?thesis
    proof (cases "a' = c")
      case True
      then have "p = next_fetch s" using h by (simp add: s'_def)
      then show ?thesis using old o by blast
    next
      case False
      then have "callers s a' = Some (Owner m' p)" using h by (simp add: s'_def)
      then show ?thesis using o store_inv_parts(4) [OF inv] by blast
    qed
  qed
next
  fix a p r
  assume "callers s' a = Some (Returned p r)"
  then have "callers s a = Some (Returned p r)" by (auto simp: s'_def split: if_splits)
  then show "settled s' p = Some r" using store_inv_parts(5) [OF inv] by (simp add: s'_def)
next
  fix p r
  assume "settled s' p = Some r"
  then have "p < next_fetch s" using store_inv_parts(6) [OF inv] by (simp add: s'_def)
  then show "p < next_fetch s'" by (simp add: s'_def)
next
  fix m
  show "length (filter (\<lambda>x. fst x = m) (fetches s')) =
        length (filter (\<lambda>k. k = m) (deletions s')) + (if loadingStates s' m = None then 0 else 1)"
    using store_inv_parts(7) [OF inv, of m] free by (auto simp: s'_def)
qed

lemma store_inv_settle:
  assumes inv: "store_inv s" and pending: "settled s p = None" and issued: "p < next_fetch s"
  shows "store_inv (s\<lparr>settled := (settled s)(p \<mapsto> outcome)\<rparr>)"
proof -
  have r: "callers s a = Some (Returned q r) \<Longrightarrow> q \<noteq> p" for a q r
    using store_inv_parts(5) [OF inv] pending by force
  show ?thesis
    using inv r issued unfolding store_inv_def by simp
qed

lemma store_inv_resume:
  assumes inv: "store_inv s" and own: "callers s c = Some (Owner n p)"
    and out: "settled s p = Some outcome"
  shows "store_inv (resumeOwner cfg c n p outcome s)"
proof -
  let ?s' = "resumeOwner cfg c n p outcome s"
  have f: "loadingStates ?s' = (loadingStates s)(n := None)"
    "deletions ?s' = deletions s @ [n]"
    "callers ?s' = (callers s)(c \<mapsto> Returned p outcome)"
    "settled ?s' = settled s" "next_fetch ?s' = next_fetch s" "fetches ?s' = fetches s"
    by (simp_all add: resumeOwner_def Let_def split: sum.splits)
  have reg: "loadingStates s n = Some p" using store_inv_parts(1) [OF inv own] .
  have other: "m \<noteq> n" if "callers s a = Some (Owner m q)" and "a \<noteq> c" for a m q
  proof
    assume "m = n"
    then have "loadingStates s n = Some q" using store_inv_parts(1) [OF inv that(1)] by simp
    then have "q = p" using reg by simp
    then show False using store_inv_parts(4) [OF inv that(1), of c n] own that(2) by simp
  qed
  show ?thesis
    unfolding store_inv_def f
  proof (intro conjI allI impI)
    fix a m q
    assume "((callers s)(c \<mapsto> Returned p outcome)) a = Some (Owner m q)"
    then have a: "a \<noteq> c" "callers s a = Some (Owner m q)" by (auto split: if_splits)
    then have "m \<noteq> n" using other by blast
    then show "((loadingStates s)(n := None)) m = Some q"
      using store_inv_parts(1) [OF inv a(2)] by simp
  next
    fix m q
    assume "((loadingStates s)(n := None)) m = Some q"
    then have "loadingStates s m = Some q" by (auto split: if_splits)
    then show "q < next_fetch s" using store_inv_parts(2) [OF inv] by blast
  next
    fix m q
    assume l: "((loadingStates s)(n := None)) m = Some q"
    then have mn: "m \<noteq> n" and "loadingStates s m = Some q" by (auto split: if_splits)
    then obtain a where a: "callers s a = Some (Owner m q)"
      using store_inv_parts(3) [OF inv] by blast
    then have "a \<noteq> c" using own mn by auto
    then have "((callers s)(c \<mapsto> Returned p outcome)) a = Some (Owner m q)" using a by simp
    then show "\<exists>a. ((callers s)(c \<mapsto> Returned p outcome)) a = Some (Owner m q)" by blast
  next
    fix a a' m m' q
    assume "((callers s)(c \<mapsto> Returned p outcome)) a = Some (Owner m q) \<and>
            ((callers s)(c \<mapsto> Returned p outcome)) a' = Some (Owner m' q)"
    then have "callers s a = Some (Owner m q)" and "callers s a' = Some (Owner m' q)"
      by (auto split: if_splits)
    then show "a = a'" using store_inv_parts(4) [OF inv] by blast
  next
    fix a q r
    assume "((callers s)(c \<mapsto> Returned p outcome)) a = Some (Returned q r)"
    then show "settled s q = Some r"
      using out store_inv_parts(5) [OF inv] by (auto split: if_splits)
  next
    fix q r
    assume "settled s q = Some r"
    then show "q < next_fetch s" using store_inv_parts(6) [OF inv] by blast
  next
    fix m
    show "length (filter (\<lambda>x. fst x = m) (fetches s)) =
          length (filter (\<lambda>k. k = m) (deletions s @ [n])) +
          (if ((loadingStates s)(n := None)) m = None then 0 else 1)"
      using store_inv_parts(7) [OF inv, of m] reg by auto
  qed
qed

lemma store_inv_step:
  assumes "store_inv s"
  shows "store_inv (store_step cfg s ev)"
proof (cases ev)
  case (Call c n)
  show ?thesis
  proof (cases "callers s c = None")
    case False
    then show ?thesis using assms Call by (auto simp: store_step_def)
  next
    case fresh: True
    show ?thesis
    proof (cases "cacheEnabled cfg \<and> components s n \<noteq> None")
      case True
      then show ?thesis
        using Call fresh store_inv_passive [OF assms fresh, of "FromCache (the (components s n))"]
        by (auto simp: store_step_def loadComponent_def)
    next
      case miss: False
      show ?thesis
      proof (cases "loadingStates s n")
        case None
        then show ?thesis
          using Call fresh miss store_inv_fetch [OF assms fresh None]
          by (auto simp: store_step_def loadComponent_def)
      next
        case (Some p)
        then show ?thesis
          using Call fresh miss store_inv_passive [OF assms fresh, of "Joined p"]
          by (auto simp: store_step_def loadComponent_def)
      qed
    qed
  qed
next
  case (Settle p outcome)
  then show ?thesis
    using assms store_inv_settle [OF assms, of p outcome] by (simp add: store_step_def)
next
  case (Resume c)
  show ?thesis
  proof (cases "callers s c")
    case None
    then show ?thesis using assms Resume by (simp add: store_step_def)
  next
    case (Some st)
    show ?thesis
    proof (cases st)
      case (Owner n p)
      show ?thesis
      proof (cases "settled s p")
        case None
        then show ?thesis using assms Resume Some Owner by (simp add: store_step_def)
      next
        case (Some outcome)
        then show ?thesis
          using Resume \<open>callers s c = Some st\<close> Owner
            store_inv_resume [OF assms, of c n p outcome cfg]
          by (simp add: store_step_def)
      qed
    qed (use assms Resume Some in \<open>simp_all add: store_step_def\<close>)
  qed
qed

lemma store_run_Nil [simp]: "store_run cfg s [] = s"
  by (simp add: store_run_def)

lemma store_run_Cons [simp]:
  "store_run cfg s (ev # evs) = store_run cfg (store_step cfg s ev) evs"
  by (simp add: store_run_def)

lemma store_run_append:
  "store_run cfg s (xs @ ys) = store_run cfg (store_run cfg s xs) ys"
  by (simp add: store_run_def)

lemma store_inv_run: "store_inv s \<Longrightarrow> store_inv (store_run cfg s evs)"
  by (induction evs arbitrary: s) (simp_all add: store_inv_step)

lemma store_inv_new: "store_inv new_store"
  by (simp add: store_inv_def new_store_def)

text \<open>Callers that find the retrieval in flight join it and change nothing else.\<close>

lemma calls_join:
  assumes "\<not> (cacheEnabled cfg \<and> components s n \<noteq> None)" and "loadingStates s n = Some p"
    and "distinct cs" and "\<forall>c \<in> set cs. callers s c = None"
  shows "store_run cfg s (calls_for n cs) =
           s\<lparr>callers := (\<lambda>c. if c \<in> set cs then Some (Joined p) else callers s c)\<rparr>"
  using assms
proof (induction cs arbitrary: s)
  case Nil
  then show ?case by (simp add: calls_for_def)
next
  case (Cons c cs)
  let ?s1 = "s\<lparr>callers := (callers s)(c \<mapsto> Joined p)\<rparr>"
  have st: "store_step cfg s (Call c n) = ?s1"
    using Cons.prems by (auto simp: store_step_def loadComponent_def)
  have "store_run cfg ?s1 (calls_for n cs) =
          ?s1\<lparr>callers := (\<lambda>a. if a \<in> set cs then Some (Joined p) else callers ?s1 a)\<rparr>"
    using Cons.prems by (intro Cons.IH) auto
  then show ?case
    using st by (simp add: calls_for_def fun_eq_iff)
qed

lemma calls_single_flight:
  fixes outcome :: "inject_error + string"
  assumes inv: "store_inv s"
    and miss: "\<not> (cacheEnabled cfg \<and> components s n \<noteq> None)" and idle: "loadingStates s n = None"
    and fresh: "distinct (c0 # cs)" "\<forall>c \<in> set (c0 # cs). callers s c = None"
  defines "p \<equiv> next_fetch s"
  defines "s1 \<equiv> store_run cfg s (calls_for n (c0 # cs))"
  defines "s2 \<equiv> store_run cfg s1 [Settle p outcome, Resume c0]"
  shows "fetches s1 = fetches s @ [(n, p)]"
    and "loadingStates s1 n = Some p"
    and "callers s1 c0 = Some (Owner n p)"
    and "\<forall>c \<in> set cs. callers s1 c = Some (Joined p)"
    and "\<forall>c \<in> set (c0 # cs). result s2 c = Some outcome"
    and "loadingStates s2 n = None"
    and "fetches s2 = fetches s1"
    and "deletions s2 = deletions s @ [n]"
proof -
  define s0 where "s0 = s\<lparr>fetches := fetches s @ [(n, p)],
                  loadingStates := (loadingStates s)(n \<mapsto> p),
                  next_fetch := Suc p,
                  callers := (callers s)(c0 \<mapsto> Owner n p)\<rparr>"
  have first: "store_step cfg s (Call c0 n) = s0"
    using miss idle fresh(2) by (auto simp: store_step_def loadComponent_def s0_def p_def)
  have "store_run cfg s0 (calls_for n cs) =
          s0\<lparr>callers := (\<lambda>c. if c \<in> set cs then Some (Joined p) else callers s0 c)\<rparr>"
    using miss fresh by (intro calls_join) (auto simp: s0_def)
  then have s1: "s1 = s0\<lparr>callers := (\<lambda>c. if c \<in> set cs then Some (Joined p) else callers s0 c)\<rparr>"
    unfolding s1_def using first by (simp add: calls_for_def)
  show f1: "fetches s1 = fetches s @ [(n, p)]" by (simp add: s1 s0_def)
  show l1: "loadingStates s1 n = Some p" by (simp add: s1 s0_def)
  show o1: "callers s1 c0 = Some (Owner n p)" using fresh(1) by (simp add: s1 s0_def)
  show j1: "\<forall>c \<in> set cs. callers s1 c = Some (Joined p)" by (simp add: s1)
  have "settled s p = None"
    using store_inv_parts(6) [OF inv, of p] unfolding p_def by (cases "settled s (next_fetch s)") auto
  then have pend: "settled s1 p = None" and nf: "p < next_fetch s1" by (simp_all add: s1 s0_def)
  define s1' where "s1' = s1\<lparr>settled := (settled s1)(p \<mapsto> outcome)\<rparr>"
  have e1: "store_step cfg s1 (Settle p outcome) = s1'"
    using pend nf by (simp add: store_step_def s1'_def)
  have e2: "store_step cfg s1' (Resume c0) = resumeOwner cfg c0 n p outcome s1'"
    using o1 by (simp add: store_step_def s1'_def)
  have s2: "s2 = resumeOwner cfg c0 n p outcome s1'"
    unfolding s2_def using e1 e2 by simp
  have f2: "loadingStates s2 = (loadingStates s1')(n := None)"
    "deletions s2 = deletions s1' @ [n]"
    "callers s2 = (callers s1')(c0 \<mapsto> Returned p outcome)"
    "settled s2 = settled s1'" "fetches s2 = fetches s1'"
    unfolding s2 by (simp_all add: resumeOwner_def Let_def split: sum.splits)
  show "\<forall>c \<in> set (c0 # cs). result s2 c = Some outcome"
  proof
    fix c
    assume c: "c \<in> set (c0 # cs)"
    show "result s2 c = Some outcome"
    proof (cases "c = c0")
      case True
      then show ?thesis by (simp add: result_def f2)
    next
      case False
      then have "callers s2 c = Some (Joined p)" using c j1 by (simp add: f2 s1'_def)
      then show ?thesis by (simp add: result_def f2 s1'_def)
    qed
  qed
  show "loadingStates s2 n = None" by (simp add: f2)
  show "fetches s2 = fetches s1" by (simp add: f2 s1'_def)
  show "deletions s2 = deletions s @ [n]" by (simp add: f2 s1'_def s1 s0_def)
qed

lemma result_from_promise:
  assumes "store_inv s" and "callers s c = Some st" and "bound_to st = Some p"
    and "result s c = Some r"
  shows "settled s p = Some r"
  using assms store_inv_parts(5) [OF assms(1), of c]
  by (cases st) (auto simp: result_def)

subsection \<open>One retrieval for concurrent callers\<close>

text \<open>
  Claim C2. From a new store and under every schedule of calls, settlements and
  resumptions: for every name the retrievals issued are as many as the registrations
  deleted, plus one while one is registered, so at most one load per name is in flight
  and each registration is deleted exactly once; and a caller that has a result has
  the outcome of the promise it is bound to. When in any such state a name is not
  cached and not in flight and the callers \<open>c0, cs\<close> ask for it one after the other,
  exactly one retrieval is issued; when it settles with an outcome and the first
  caller is resumed, every one of these callers has that outcome, no further
  retrieval was issued, the name is no longer registered and was deleted once.
\<close>

theorem single_flight:
  "(\<forall>m. length (filter (\<lambda>x. fst x = m) (fetches (store_run cfg new_store evs))) =
         length (filter (\<lambda>k. k = m) (deletions (store_run cfg new_store evs))) +
         (if loadingStates (store_run cfg new_store evs) m = None then 0 else 1)) \<and>
   (\<forall>c st p r. callers (store_run cfg new_store evs) c = Some st \<and> bound_to st = Some p \<and>
        result (store_run cfg new_store evs) c = Some r \<longrightarrow>
        settled (store_run cfg new_store evs) p = Some r) \<and>
   (\<not> (cacheEnabled cfg \<and> components (store_run cfg new_store evs) n \<noteq> None) \<and>
    loadingStates (store_run cfg new_store evs) n = None \<and>
    distinct (c0 # cs) \<and> (\<forall>c \<in> set (c0 # cs). callers (store_run cfg new_store evs) c = None) \<longrightarrow>
      fetches (store_run cfg (store_run cfg new_store evs) (calls_for n (c0 # cs))) =
        fetches (store_run cfg new_store evs) @ [(n, next_fetch (store_run cfg new_store evs))] \<and>
      (\<forall>c \<in> set (c0 # cs).
         result (store_run cfg (store_run cfg new_store evs)
                   (calls_for n (c0 # cs) @ [Settle (next_fetch (store_run cfg new_store evs)) outcome,
                                             Resume c0])) c = Some outcome) \<and>
      fetches (store_run cfg (store_run cfg new_store evs)
                 (calls_for n (c0 # cs) @ [Settle (next_fetch (store_run cfg new_store evs)) outcome,
                                           Resume c0])) =
        fetches (store_run cfg new_store evs) @ [(n, next_fetch (store_run cfg new_store evs))] \<and>
      loadingStates (store_run cfg (store_run cfg new_store evs)
                 (calls_for n (c0 # cs) @ [Settle (next_fetch (store_run cfg new_store evs)) outcome,
                                           Resume c0])) n = None \<and>
      deletions (store_run cfg (store_run cfg new_store evs)
                 (calls_for n (c0 # cs) @ [Settle (next_fetch (store_run cfg new_store evs)) outcome,
                                           Resume c0])) =
        deletions (store_run cfg new_store evs) @ [n])"
proof -
  let ?s = "store_run cfg new_store evs"
  have inv: "store_inv ?s" by (rule store_inv_run [OF store_inv_new])
  have 1: "\<forall>m. length (filter (\<lambda>x. fst x = m) (fetches ?s)) =
         length (filter (\<lambda>k. k = m) (deletions ?s)) + (if loadingStates ?s m = None then 0 else 1)"
    using store_inv_parts(7) [OF inv] by blast
  have 2: "\<forall>c st p r. callers ?s c = Some st \<and> bound_to st = Some p \<and> result ?s c = Some r \<longrightarrow>
        settled ?s p = Some r"
    using result_from_promise [OF inv] by blast
  have 3: "fetches (store_run cfg ?s (calls_for n (c0 # cs))) = fetches ?s @ [(n, next_fetch ?s)] \<and>
      (\<forall>c \<in> set (c0 # cs).
         result (store_run cfg ?s (calls_for n (c0 # cs) @ [Settle (next_fetch ?s) outcome, Resume c0])) c
           = Some outcome) \<and>
      fetches (store_run cfg ?s (calls_for n (c0 # cs) @ [Settle (next_fetch ?s) outcome, Resume c0])) =
        fetches ?s @ [(n, next_fetch ?s)] \<and>
      loadingStates (store_run cfg ?s (calls_for n (c0 # cs) @ [Settle (next_fetch ?s) outcome, Resume c0])) n
        = None \<and>
      deletions (store_run cfg ?s (calls_for n (c0 # cs) @ [Settle (next_fetch ?s) outcome, Resume c0])) =
        deletions ?s @ [n]"
    if h: "\<not> (cacheEnabled cfg \<and> components ?s n \<noteq> None) \<and> loadingStates ?s n = None \<and>
           distinct (c0 # cs) \<and> (\<forall>c \<in> set (c0 # cs). callers ?s c = None)"
  proof -
    have a: "\<not> (cacheEnabled cfg \<and> components ?s n \<noteq> None)" and b: "loadingStates ?s n = None"
      and c: "distinct (c0 # cs)" and d: "\<forall>c \<in> set (c0 # cs). callers ?s c = None"
      using h by blast+
    note sf = calls_single_flight [OF inv a b c d]
    show ?thesis
      unfolding store_run_append using sf(1,5,6,7,8) by simp
  qed
  show ?thesis using 1 2 3 by blast
qed

text \<open>The theorem for three callers asking a new store for \<open>nav\<close>.\<close>

theorem single_flight_witness:
  "fetches (store_run sample_cfg new_store sample_load) = [(''nav'', 0)] \<and>
   result (store_run sample_cfg new_store sample_load) 0 = Some (Inr ''<nav></nav>'') \<and>
   result (store_run sample_cfg new_store sample_load) 1 = Some (Inr ''<nav></nav>'') \<and>
   result (store_run sample_cfg new_store sample_load) 2 = Some (Inr ''<nav></nav>'') \<and>
   loadingStates (store_run sample_cfg new_store sample_load) ''nav'' = None \<and>
   deletions (store_run sample_cfg new_store sample_load) = [''nav'']"
proof -
  have s0: "store_run sample_cfg new_store [] = new_store" by simp
  have h: "\<not> (cacheEnabled sample_cfg \<and> components new_store ''nav'' \<noteq> None) \<and>
           loadingStates new_store ''nav'' = None \<and> distinct [0, 1, 2 :: nat] \<and>
           (\<forall>c \<in> set [0, 1, 2]. callers new_store c = None)"
    by (simp add: new_store_def)
  have l: "sample_load = calls_for ''nav'' [0, 1, 2] @ [Settle 0 (Inr ''<nav></nav>''), Resume 0]"
    by (simp add: sample_load_def calls_for_def)
  have e: "fetches new_store = []" "deletions new_store = []" "next_fetch new_store = 0"
    by (simp_all add: new_store_def)
  show ?thesis
    unfolding l
    using single_flight [of sample_cfg "[]" "''nav''" 0 "[1, 2]" "Inr ''<nav></nav>''",
        THEN conjunct2, THEN conjunct2, unfolded s0 e, THEN mp, OF h]
    by simp
qed

section \<open>Properties of the script loop and the batch loader\<close>









subsection \<open>Scripts run one at a time, in document order\<close>




subsection \<open>The batch loader counts the successes\<close>




end
